theory Spec2Isabelle
  imports Main "HOL-Library.Sublist" "HOL-Library.Word" "HOL-Library.Log_Nat"
begin

section \<open>Strings\<close>

text \<open>
  A Go string is a sequence of bytes; it is modelled as a \<open>string\<close> (a list of 8-bit
  characters). The functions of package \<open>strings\<close> that \<open>dns_proxy.go\<close> calls are
  written out below. \<open>TrimSpace\<close> and \<open>ToLower\<close> follow Go on ASCII input (bytes below
  0x80), which is what a DNS name in presentation format consists of; on other bytes Go
  decodes UTF-8, which is not modelled.
\<close>

definition HasPrefix :: "string \<Rightarrow> string \<Rightarrow> bool" where
  "HasPrefix s pre = (length s \<ge> length pre \<and> take (length pre) s = pre)"

definition HasSuffix :: "string \<Rightarrow> string \<Rightarrow> bool" where
  "HasSuffix s suf = (length s \<ge> length suf \<and> drop (length s - length suf) s = suf)"

definition TrimPrefix :: "string \<Rightarrow> string \<Rightarrow> string" where
  "TrimPrefix s pre = (if HasPrefix s pre then drop (length pre) s else s)"

definition TrimSuffix :: "string \<Rightarrow> string \<Rightarrow> string" where
  "TrimSuffix s suf = (if HasSuffix s suf then take (length s - length suf) s else s)"

text \<open>\<open>strings.Split(s, sep)\<close> for a separator of one byte: the pieces of \<open>s\<close> between
  the occurrences of \<open>sep\<close>, one more piece than there are occurrences.\<close>

fun Split :: "string \<Rightarrow> char \<Rightarrow> string list" where
  "Split [] sep = [[]]"
| "Split (c # cs) sep =
     (if c = sep then [] # Split cs sep
      else (c # hd (Split cs sep)) # tl (Split cs sep))"

text \<open>The ASCII white space of \<open>strings.TrimSpace\<close>: tab, line feed, vertical tab, form
  feed, carriage return and space.\<close>

definition isSpace :: "char \<Rightarrow> bool" where
  "isSpace c = (c = CHR 0x09 \<or> c = CHR 0x0A \<or> c = CHR 0x0B \<or> c = CHR 0x0C \<or> c = CHR 0x0D \<or> c = CHR 0x20)"

definition TrimSpace :: "string \<Rightarrow> string" where
  "TrimSpace s = rev (dropWhile isSpace (rev (dropWhile isSpace s)))"

definition toLower_byte :: "char \<Rightarrow> char" where
  "toLower_byte c =
     (let n = (of_char c :: nat) in if 65 \<le> n \<and> n \<le> 90 then char_of (n + 32) else c)"

definition ToLower :: "string \<Rightarrow> string" where
  "ToLower s = map toLower_byte s"

section \<open>Name canonicalisation and wildcard matching\<close>

definition canonicalName :: "string \<Rightarrow> string" where
  "canonicalName fqdn =
     (let q = TrimSpace fqdn;
          q = TrimSuffix q ''.'';
          q = ToLower q
      in q)"

definition wildcardMatches :: "string \<Rightarrow> string \<Rightarrow> bool" where
  "wildcardMatches wildcard domain =
     (let wildCardParts = Split wildcard (CHR ''*'') in
      if length wildCardParts \<noteq> 2 then False
      else if length (wildCardParts ! 0) > 0 \<and> length (wildCardParts ! 1) > 0
        then HasPrefix domain (wildCardParts ! 0) \<and> HasSuffix domain (wildCardParts ! 1)
      else if length (wildCardParts ! 1) > 0
        then HasSuffix domain (wildCardParts ! 1)
      else if length (wildCardParts ! 0) > 0
        then HasPrefix domain (wildCardParts ! 0)
      else False)"

text \<open>The wildcard rule in the words of the specification: the pattern has exactly one
  \<open>*\<close>; what stands before it is the prefix, what stands after it the suffix; with both
  non-empty the domain must have both, with only one non-empty the domain must have that
  one, and with both empty nothing matches.\<close>

definition wildcard_spec :: "string \<Rightarrow> string \<Rightarrow> bool" where
  "wildcard_spec P D =
     (count_list P (CHR ''*'') = 1 \<and>
      (let pre = takeWhile (\<lambda>c. c \<noteq> CHR ''*'') P;
           suf = drop (Suc (length pre)) P
       in (pre \<noteq> [] \<and> suf \<noteq> [] \<and> prefix pre D \<and> suffix suf D) \<or>
          (pre = [] \<and> suf \<noteq> [] \<and> suffix suf D) \<or>
          (pre \<noteq> [] \<and> suf = [] \<and> prefix pre D)))"

text \<open>A host name as a fully qualified domain name with its trailing dot: the root
  \<open>.\<close>, or non-empty labels of ASCII bytes without white space, each followed by a
  dot.\<close>

definition is_label :: "string \<Rightarrow> bool" where
  "is_label l = (l \<noteq> [] \<and> list_all (\<lambda>c. \<not> isSpace c \<and> (of_char c :: nat) < 128) l)"

definition is_FQDN :: "string \<Rightarrow> bool" where
  "is_FQDN s =
     (s \<noteq> [] \<and> last s = CHR ''.'' \<and>
      (butlast s = [] \<or> list_all is_label (Split (butlast s) (CHR ''.''))))"

text \<open>
  A fully qualified domain name in presentation format (RFC 1035, section 5.1), which is
  how the DNS library hands the name of a question to the handler: printable ASCII
  bytes, a backslash quoting the byte after it, non-empty labels each ended by a dot
  that is not quoted. A space inside a label is quoted, so the name whose one label is
  \<open>a\<close> followed by a space reads \<open>a\ .\<close> . \<open>presentation_labels\<close> cuts a name at the dots
  that are not quoted, and gives \<open>None\<close> for a byte that is not printable, a space that is
  not quoted and a backslash with nothing after it.
\<close>

definition printable :: "char \<Rightarrow> bool" where
  "printable c = (32 \<le> (of_char c :: nat) \<and> (of_char c :: nat) \<le> 126)"

fun presentation_labels :: "string \<Rightarrow> string list option" where
  "presentation_labels [] = Some [[]]"
| "presentation_labels [c] =
     (if c = CHR ''.'' then Some [[], []]
      else if printable c \<and> c \<noteq> CHR '' '' \<and> c \<noteq> CHR 0x5C then Some [[c]]
      else None)"
| "presentation_labels (c # d # cs) =
     (if c = CHR 0x5C
      then (if printable d
            then map_option (\<lambda>ls. (c # d # hd ls) # tl ls) (presentation_labels cs)
            else None)
      else if c = CHR ''.'' then map_option (\<lambda>ls. [] # ls) (presentation_labels (d # cs))
      else if printable c \<and> c \<noteq> CHR '' ''
        then map_option (\<lambda>ls. (c # hd ls) # tl ls) (presentation_labels (d # cs))
      else None)"

definition is_presentation_FQDN :: "string \<Rightarrow> bool" where
  "is_presentation_FQDN s =
     (case presentation_labels s of
        None \<Rightarrow> False
      | Some ls \<Rightarrow>
          length ls \<ge> 2 \<and> last ls = [] \<and> (s = ''.'' \<or> list_all (\<lambda>l. l \<noteq> []) (butlast ls)))"

section \<open>DNS messages\<close>

text \<open>
  Modelled from the spec: the message type, its resource records and \<open>SetRcode\<close> belong
  to the DNS library (\<open>github.com/miekg/dns\<close>), which is not under \<open>src/\<close>. The spec
  asks of a message: a question (name, type, class), answer, authority and additional
  sections of records with a mutable TTL, and a response code. The header fields and
  \<open>SetRcode\<close> (through \<open>SetReply\<close>) follow the library: the reply takes the request's
  identifier and opcode, the RD and CD bits when the opcode is a query, and the first
  question of the request when there is one.

  A record is a value here. The library hands out pointers to records; the model is
  right as long as no record is shared between two sections of one message, which holds
  for unpacked and for copied messages.
\<close>

record Question =
  Name :: string
  Qtype :: "16 word"
  Qclass :: "16 word"

record RR =
  hdr_Name :: string
  Rrtype :: "16 word"
  Class :: "16 word"
  Ttl :: "32 word"
  Rdlength :: "16 word"
  Rdata :: "8 word list"

record Msg =
  msg_Id :: "16 word"
  Response :: bool
  Opcode :: int
  Authoritative :: bool
  Truncated :: bool
  RecursionDesired :: bool
  RecursionAvailable :: bool
  Zero :: bool
  AuthenticatedData :: bool
  CheckingDisabled :: bool
  Rcode :: int
  Compress :: bool
  Question :: "Question list"
  Answer :: "RR list"
  Ns :: "RR list"
  Extra :: "RR list"

definition TypePTR :: "16 word" where "TypePTR = 12"
definition TypeOPT :: "16 word" where "TypeOPT = 41"
definition OpcodeQuery :: int where "OpcodeQuery = 0"
definition RcodeSuccess :: int where "RcodeSuccess = 0"
definition RcodeServerFailure :: int where "RcodeServerFailure = 2"
definition RcodeRefused :: int where "RcodeRefused = 5"

text \<open>\<open>new(dns.Msg)\<close>: every field zero, every section nil.\<close>

definition new_Msg :: Msg where
  "new_Msg =
     \<lparr>msg_Id = 0, Response = False, Opcode = 0, Authoritative = False, Truncated = False,
      RecursionDesired = False, RecursionAvailable = False, Zero = False,
      AuthenticatedData = False, CheckingDisabled = False, Rcode = 0, Compress = False,
      Question = [], Answer = [], Ns = [], Extra = []\<rparr>"

definition SetReply :: "Msg \<Rightarrow> Msg \<Rightarrow> Msg" where
  "SetReply m request =
     (let m = m\<lparr>msg_Id := msg_Id request, Response := True, Opcode := Opcode request\<rparr>;
          m = (if Opcode m = OpcodeQuery
               then m\<lparr>RecursionDesired := RecursionDesired request,
                      CheckingDisabled := CheckingDisabled request\<rparr>
               else m);
          m = m\<lparr>Rcode := RcodeSuccess\<rparr>
      in if length (Question request) > 0 then m\<lparr>Question := [hd (Question request)]\<rparr> else m)"

definition SetRcode :: "Msg \<Rightarrow> Msg \<Rightarrow> int \<Rightarrow> Msg" where
  "SetRcode m request rcode = (SetReply m request)\<lparr>Rcode := rcode\<rparr>"

text \<open>\<open>Msg.Copy\<close> is a deep copy: the same value.\<close>

definition Copy :: "Msg \<Rightarrow> Msg" where
  "Copy m = m"

section \<open>Time\<close>

text \<open>
  A \<open>time.Time\<close> is an instant in nanoseconds and a \<open>time.Duration\<close> a signed 64-bit
  count of nanoseconds, both as \<open>int\<close>. \<open>Sub\<close> saturates at the ends of the 64-bit range
  and the product of a duration wraps around in it, as in Go.

  \<open>Duration.Seconds\<close> returns a \<open>float64\<close>: \<open>float64(sec) + float64(nsec)/1e9\<close> for the
  whole seconds \<open>sec\<close> and the remaining nanoseconds \<open>nsec\<close> of the duration. A \<open>float64\<close>
  is modelled by the rational number it stands for, and every conversion, the division
  and the addition round their exact result to the nearest number with a significand of
  53 bits, ties to the even significand (\<open>round_f64\<close>), as IEEE 754 binary64 arithmetic does
  for results in its normal range; the numbers that occur here are zero or of magnitude
  between \<open>10^-9\<close> and \<open>2^34\<close>. A consequence is that \<open>Seconds\<close> rounds up to the next whole
  second when a duration of \<open>2^24\<close> seconds or more falls short of it by a nanosecond
  (\<open>Seconds_rounds_up\<close>).
\<close>

type_synonym Time = int
type_synonym Duration = int

definition Second :: Duration where
  "Second = 1000000000"

definition staleTTL :: Duration where
  "staleTTL = 60 * Second"

definition Sub :: "Time \<Rightarrow> Time \<Rightarrow> Duration" where
  "Sub t u = max (- (2 ^ 63)) (min (2 ^ 63 - 1) (t - u))"

definition Add :: "Time \<Rightarrow> Duration \<Rightarrow> Time" where
  "Add t d = t + d"

definition After :: "Time \<Rightarrow> Time \<Rightarrow> bool" where
  "After t u = (t > u)"

definition seconds_Duration :: "int \<Rightarrow> Duration" where
  \<comment> \<open>\<open>time.Duration(n) * time.Second\<close>\<close>
  "seconds_Duration n = sint (word_of_int (n * Second) :: 64 word)"

text \<open>\<open>pow2 k\<close> is \<open>2^k\<close> for an integer \<open>k\<close>, and \<open>ilog2 x\<close> the integer part of the binary
  logarithm of \<open>x \<ge> 2^-64\<close>.\<close>

definition pow2 :: "int \<Rightarrow> rat" where
  "pow2 k = (if k \<ge> 0 then 2 ^ nat k else 1 / 2 ^ nat (- k))"

definition ilog2 :: "rat \<Rightarrow> int" where
  "ilog2 x = bitlen \<lfloor>x * 2 ^ 64\<rfloor> - 65"

definition round_half_even :: "rat \<Rightarrow> int" where
  "round_half_even x =
     (let f = \<lfloor>x\<rfloor>; r = x - of_int f in
      if r < 1 / 2 then f else if r > 1 / 2 then f + 1 else if even f then f else f + 1)"

definition round_f64 :: "rat \<Rightarrow> rat" where
  "round_f64 x =
     (if x = 0 then 0
      else let a = \<bar>x\<bar>; u = pow2 (ilog2 a - 52)
           in sgn x * of_int (round_half_even (a / u)) * u)"

text \<open>\<open>Duration.Seconds\<close>; the integer division of Go truncates towards zero and the
  remainder has the sign of the duration.\<close>

definition Seconds :: "Duration \<Rightarrow> rat" where
  "Seconds d =
     (let sec = sgn d * (\<bar>d\<bar> div Second);
          nsec = sgn d * (\<bar>d\<bar> mod Second)
      in round_f64 (round_f64 (of_int sec) + round_f64 (round_f64 (of_int nsec) / 1000000000)))"

section \<open>Configuration\<close>

text \<open>
  Modelled from the spec: the configuration types are declared in package \<open>ctrld\<close>, which
  is not under \<open>src/\<close>; the fields are those that \<open>dns_proxy.go\<close> reads and the spec
  lists. A pointer that may be nil is an \<open>option\<close>, a Go map a partial function. A policy
  rule is a Go map from a source to its targets; it is given as the list of its
  entries in the order in which the loop over the map visits them (Go fixes no order
  for a map with more than one entry).
\<close>

datatype ResolverType = ResolverTypeOS | ResolverTypeOther string

record UpstreamConfig =
  uc_Name :: string
  uc_Type :: ResolverType
  Timeout :: int
  SendClientInfo :: bool

type_synonym IP = "8 word list"

record IPNet =
  net_IP :: IP
  Mask :: "8 word list"

record NetworkConfig =
  IPNets :: "IPNet list"

type_synonym Rule = "(string \<times> string list) list"

record ListenerPolicyConfig =
  policy_Name :: string
  Networks :: "Rule list"
  Rules :: "Rule list"
  FailoverRcodeNumbers :: "int list"

record ListenerConfig =
  IP :: string
  Port :: int
  Restricted :: bool
  Policy :: "ListenerPolicyConfig option"

record ServiceConfig =
  CacheServeStale :: bool
  CacheTTLOverride :: int

record Config =
  Upstream :: "string \<rightharpoonup> UpstreamConfig"
  Network :: "string \<rightharpoonup> NetworkConfig"
  Service :: ServiceConfig

definition osUpstreamConfig :: UpstreamConfig where
  "osUpstreamConfig =
     \<lparr>uc_Name = ''OS resolver'', uc_Type = ResolverTypeOS, Timeout = 2000,
      SendClientInfo = False\<rparr>"

datatype Addr = UDPAddr IP | TCPAddr IP | OtherAddr

section \<open>The cache\<close>

text \<open>
  Modelled from the spec: package \<open>dnscache\<close> is not under \<open>src/\<close>. The spec has a
  key made of the query's name, type and class and of the upstream identifier, a value
  holding the cached message and its absolute expiry, and a store from keys to values
  that keeps expired entries. \<open>NewKey\<close> reads the first question of the message and
  panics when there is none.
\<close>

datatype panic = IndexOutOfRange | NilDereference

record Key =
  key_Qtype :: "16 word"
  key_Qclass :: "16 word"
  key_Name :: string
  key_Upstream :: string

record Value =
  val_Msg :: Msg
  Expire :: Time

type_synonym Cache = "Key \<rightharpoonup> Value"

definition NewKey :: "Msg \<Rightarrow> string \<Rightarrow> panic + Key" where
  "NewKey msg upstream =
     (case Question msg of
        [] \<Rightarrow> Inl IndexOutOfRange
      | q # _ \<Rightarrow> Inr \<lparr>key_Qtype = Qtype q, key_Qclass = Qclass q, key_Name = Name q,
                      key_Upstream = upstream\<rparr>)"

definition NewValue :: "Msg \<Rightarrow> Time \<Rightarrow> Value" where
  "NewValue msg expire = \<lparr>val_Msg = msg, Expire = expire\<rparr>"

definition cache_Get :: "Cache \<Rightarrow> Key \<Rightarrow> Value option" where
  "cache_Get c k = c k"

definition cache_Add :: "Cache \<Rightarrow> Key \<Rightarrow> Value \<Rightarrow> Cache" where
  "cache_Add c k v = c(k \<mapsto> v)"

section \<open>The outside world\<close>

text \<open>
  What the proxy calls outside this file is a record of operations on a world \<open>'w\<close>
  (the network, the clock, the transport state of the upstreams, the request context):
  \<^item> \<open>Contains\<close> is \<open>net.IPNet.Contains\<close> of the standard library;
  \<^item> \<open>time_Now\<close> reads the clock; the world moves only through the calls below;
  \<^item> \<open>NewResolver\<close> and \<open>Resolve\<close> are \<open>ctrld.NewResolver\<close> and the \<open>Resolve\<close> method
    of the resolver \<open>'r\<close> it returns; \<open>Resolve\<close> is given the deadline (in milliseconds)
    when the upstream has one, and returns an error or a message, which may be nil;
  \<^item> \<open>ReBootstrap\<close> is \<open>UpstreamConfig.ReBootstrap\<close>;
  \<^item> \<open>ClientInfo\<close> stands for lines 239 to 244 of \<open>proxy\<close>: when the upstream sends
    client information, the client found by the hardware address of the query is
    attached to the request context;
  \<^item> \<open>uint32_overflow\<close> is what the platform makes of the conversion to \<open>uint32\<close> of a
    \<open>float64\<close> that does not fit 32 bits.
\<close>

type_synonym error = string

record ('w, 'r) externals =
  Contains :: "IPNet \<Rightarrow> IP \<Rightarrow> bool"
  time_Now :: "'w \<Rightarrow> Time"
  NewResolver :: "'w \<Rightarrow> UpstreamConfig \<Rightarrow> (error + 'r) \<times> 'w"
  Resolve :: "'w \<Rightarrow> 'r \<Rightarrow> int option \<Rightarrow> Msg \<Rightarrow> (error + Msg option) \<times> 'w"
  ReBootstrap :: "'w \<Rightarrow> UpstreamConfig \<Rightarrow> 'w"
  ClientInfo :: "'w \<Rightarrow> UpstreamConfig \<Rightarrow> Msg \<Rightarrow> 'w"
  uint32_overflow :: "rat \<Rightarrow> 32 word"

text \<open>The lines that \<open>upstreamFor\<close>, \<open>proxy\<close> and the handler write to the log.\<close>

datatype log_line =
    LogReceivedQuery string
  | LogQueryRefused Addr
  | LogPolicy string string string "string list"
  | LogHitCached
  | LogSendingQuery string string
  | LogFailedCreateResolver
  | LogRetrying
  | LogFailedResolve
  | LogServingStale
  | LogFailoverRcode
  | LogAddCached
  | LogAllFailed
  | LogReceivedResponse

text \<open>The state of the program: the cache (\<open>None\<close> when \<open>p.cache\<close> is nil), the world
  and the log written so far.\<close>

record 'w prog_state =
  cache :: "Cache option"
  world :: "'w"
  logs :: "log_line list"

definition Log :: "log_line \<Rightarrow> 'w prog_state \<Rightarrow> 'w prog_state" where
  "Log l s = s\<lparr>logs := logs s @ [l]\<rparr>"

section \<open>TTL rewriting\<close>

text \<open>\<open>uint32(f)\<close> for a \<open>float64\<close>: the fraction is dropped; where the result does not fit
  32 bits Go leaves the value to the implementation, which is the operation
  \<open>uint32_overflow\<close> of the outside world.\<close>

definition uint32_of_float64 :: "('w, 'r) externals \<Rightarrow> rat \<Rightarrow> 32 word" where
  "uint32_of_float64 ext f =
     (let t = (if 0 \<le> f then \<lfloor>f\<rfloor> else \<lceil>f\<rceil>) in
      if 0 \<le> t \<and> t < 2 ^ 32 then word_of_int t else uint32_overflow ext f)"

definition setCachedAnswerTTL :: "('w, 'r) externals \<Rightarrow> Msg \<Rightarrow> Time \<Rightarrow> Time \<Rightarrow> Msg" where
  "setCachedAnswerTTL ext answer now expiredTime =
     (let ttlSecs = Seconds (Sub expiredTime now) in
      if ttlSecs < 0 then answer
      else
        let ttl = uint32_of_float64 ext ttlSecs in
        answer\<lparr>Answer := map (\<lambda>rr. rr\<lparr>Ttl := ttl\<rparr>) (Answer answer),
               Ns := map (\<lambda>rr. rr\<lparr>Ttl := ttl\<rparr>) (Ns answer),
               Extra := map (\<lambda>rr. if Rrtype rr \<noteq> TypeOPT then rr\<lparr>Ttl := ttl\<rparr> else rr)
                          (Extra answer)\<rparr>)"

definition ttlFromMsg :: "Msg \<Rightarrow> 32 word" where
  "ttlFromMsg msg =
     (case Answer msg of rr # _ \<Rightarrow> Ttl rr
      | [] \<Rightarrow> (case Ns msg of rr # _ \<Rightarrow> Ttl rr | [] \<Rightarrow> 0))"

fun containRcode :: "int list \<Rightarrow> int \<Rightarrow> bool" where
  "containRcode [] rcode = False"
| "containRcode (r # rcodes) rcode = (if r = rcode then True else containRcode rcodes rcode)"

section \<open>The policy matcher\<close>

text \<open>The loop labelled \<open>networkRules\<close>: the first entry, in the order of the rules, whose
  network is configured and has a prefix containing the source address.\<close>

fun networkRule_entries ::
  "('w, 'r) externals \<Rightarrow> Config \<Rightarrow> IP \<Rightarrow> Rule \<Rightarrow> (string \<times> string list) option" where
  "networkRule_entries ext cfg sourceIP [] = None"
| "networkRule_entries ext cfg sourceIP ((source, targets) # entries) =
     (let networkNum = TrimPrefix source ''network.'' in
      case Network cfg networkNum of
        None \<Rightarrow> networkRule_entries ext cfg sourceIP entries
      | Some nc \<Rightarrow>
          if list_ex (\<lambda>ipNet. Contains ext ipNet sourceIP) (IPNets nc)
          then Some (source, targets)
          else networkRule_entries ext cfg sourceIP entries)"

fun networkRules ::
  "('w, 'r) externals \<Rightarrow> Config \<Rightarrow> IP \<Rightarrow> Rule list \<Rightarrow> (string \<times> string list) option" where
  "networkRules ext cfg sourceIP [] = None"
| "networkRules ext cfg sourceIP (rule # rules) =
     (case networkRule_entries ext cfg sourceIP rule of
        Some m \<Rightarrow> Some m
      | None \<Rightarrow> networkRules ext cfg sourceIP rules)"

text \<open>The loop over the domain rules: the first entry whose source is the domain or
  matches it as a wildcard.\<close>

fun domainRule_entries :: "string \<Rightarrow> Rule \<Rightarrow> (string \<times> string list) option" where
  "domainRule_entries domain [] = None"
| "domainRule_entries domain ((source, targets) # entries) =
     (if source = domain \<or> wildcardMatches source domain then Some (source, targets)
      else domainRule_entries domain entries)"

fun domainRules :: "string \<Rightarrow> Rule list \<Rightarrow> (string \<times> string list) option" where
  "domainRules domain [] = None"
| "domainRules domain (rule # rules) =
     (case domainRule_entries domain rule of
        Some m \<Rightarrow> Some m
      | None \<Rightarrow> domainRules domain rules)"

text \<open>The deferred function of \<open>upstreamFor\<close>: the line it logs, from the variables as
  they are when \<open>upstreamFor\<close> returns.\<close>

definition upstreamFor_deferred ::
  "ListenerConfig \<Rightarrow> Addr \<Rightarrow> string \<Rightarrow> string \<Rightarrow> string \<Rightarrow> string list \<Rightarrow> bool \<Rightarrow> log_line" where
  "upstreamFor_deferred lc addr matchedPolicy matchedNetwork matchedRule upstreams matched =
     (if \<not> matched \<and> Restricted lc then LogQueryRefused addr
      else LogPolicy matchedPolicy matchedNetwork matchedRule upstreams)"

text \<open>The type switch on the address (lines 145 to 151): the address of a UDP or TCP
  peer, and the nil address otherwise.\<close>

definition sourceIP_of :: "Addr \<Rightarrow> IP" where
  "sourceIP_of addr = (case addr of UDPAddr ip \<Rightarrow> ip | TCPAddr ip \<Rightarrow> ip | OtherAddr \<Rightarrow> [])"

text \<open>\<open>upstreamFor\<close> returns the upstreams, whether a rule matched, and the line logged.\<close>

definition upstreamFor ::
  "('w, 'r) externals \<Rightarrow> Config \<Rightarrow> string \<Rightarrow> ListenerConfig \<Rightarrow> Addr \<Rightarrow> string
     \<Rightarrow> string list \<times> bool \<times> log_line" where
  "upstreamFor ext cfg defaultUpstreamNum lc addr domain =
     (let upstreams = [''upstream.'' @ defaultUpstreamNum] in
      case Policy lc of
        None \<Rightarrow>
          (upstreams, False,
           upstreamFor_deferred lc addr ''no policy'' ''no network'' ''no rule'' upstreams False)
      | Some policy \<Rightarrow>
          let sourceIP = sourceIP_of addr;
              (matchedPolicy, matchedNetwork, networkTargets, matched) =
                (case networkRules ext cfg sourceIP (Networks policy) of
                   None \<Rightarrow> (''no policy'', ''no network'', [], False)
                 | Some (source, targets) \<Rightarrow> (policy_Name policy, source, targets, True))
          in
          case domainRules domain (Rules policy) of
            Some (source, targets) \<Rightarrow>
              let matchedPolicy = policy_Name policy;
                  matchedNetwork =
                    (if length networkTargets > 0 then matchedNetwork @ '' (unenforced)''
                     else matchedNetwork)
              in (targets, True,
                  upstreamFor_deferred lc addr matchedPolicy matchedNetwork source targets True)
          | None \<Rightarrow>
              if matched
              then (networkTargets, True,
                    upstreamFor_deferred lc addr matchedPolicy matchedNetwork ''no rule''
                      networkTargets True)
              else (upstreams, False,
                    upstreamFor_deferred lc addr matchedPolicy matchedNetwork ''no rule''
                      upstreams False))"

section \<open>The proxy engine\<close>

definition upstreamConfigsFromUpstreamNumbers ::
  "Config \<Rightarrow> string list \<Rightarrow> UpstreamConfig option list" where
  "upstreamConfigsFromUpstreamNumbers cfg upstreams =
     map (\<lambda>upstream. Upstream cfg (TrimPrefix upstream ''upstream.'')) upstreams"

text \<open>The loop over the cache (lines 206 to 220): a fresh entry ends it with the answer,
  an expired one is kept as the stale answer and the loop goes on.\<close>

datatype lookup_result = Hit Msg | Miss "Msg option"

fun cache_lookup ::
  "('w, 'r) externals \<Rightarrow> Cache \<Rightarrow> 'w \<Rightarrow> Msg \<Rightarrow> string list \<Rightarrow> Msg option
     \<Rightarrow> panic + lookup_result" where
  "cache_lookup ext c w msg [] staleAnswer = Inr (Miss staleAnswer)"
| "cache_lookup ext c w msg (upstream # upstreams) staleAnswer =
     (case NewKey msg upstream of
        Inl p \<Rightarrow> Inl p
      | Inr k \<Rightarrow>
          (case cache_Get c k of
             None \<Rightarrow> cache_lookup ext c w msg upstreams staleAnswer
           | Some cachedValue \<Rightarrow>
               let answer = Copy (val_Msg cachedValue);
                   answer = SetRcode answer msg (Rcode answer);
                   now = time_Now ext w
               in if After (Expire cachedValue) now
                  then Inr (Hit (setCachedAnswerTTL ext answer now (Expire cachedValue)))
                  else cache_lookup ext c w msg upstreams (Some answer)))"

definition resolve1 ::
  "('w, 'r) externals \<Rightarrow> string list \<Rightarrow> nat \<Rightarrow> UpstreamConfig \<Rightarrow> Msg \<Rightarrow> 'w prog_state
     \<Rightarrow> (error + Msg option) \<times> 'w prog_state" where
  "resolve1 ext upstreams n upstreamConfig msg s =
     (let s = Log (LogSendingQuery (upstreams ! n) (uc_Name upstreamConfig)) s in
      case NewResolver ext (world s) upstreamConfig of
        (Inl err, w) \<Rightarrow> (Inl err, Log LogFailedCreateResolver (s\<lparr>world := w\<rparr>))
      | (Inr dnsResolver, w) \<Rightarrow>
          let deadline = (if Timeout upstreamConfig > 0 then Some (Timeout upstreamConfig)
                          else None);
              (r, w) = Resolve ext w dnsResolver deadline msg
          in (r, s\<lparr>world := w\<rparr>))"

definition resolve ::
  "('w, 'r) externals \<Rightarrow> string list \<Rightarrow> nat \<Rightarrow> UpstreamConfig \<Rightarrow> Msg \<Rightarrow> 'w prog_state
     \<Rightarrow> Msg option \<times> 'w prog_state" where
  "resolve ext upstreams n upstreamConfig msg s =
     (let s = s\<lparr>world := ClientInfo ext (world s) upstreamConfig msg\<rparr>;
          (r, s) = resolve1 ext upstreams n upstreamConfig msg s
      in case r of
           Inl err \<Rightarrow>
             let s = Log LogRetrying s;
                 s = s\<lparr>world := ReBootstrap ext (world s) upstreamConfig\<rparr>;
                 (r, s) = resolve1 ext upstreams n upstreamConfig msg s
             in (case r of
                   Inr answer \<Rightarrow> (answer, s)
                 | Inl err \<Rightarrow> (None, Log LogFailedResolve s))
         | Inr answer \<Rightarrow> (answer, s))"

text \<open>The part of the loop body after the failover test (lines 275 to 289): the answer
  is final; it is stored when there is a cache, and returned.\<close>

definition final_answer ::
  "('w, 'r) externals \<Rightarrow> Config \<Rightarrow> string list \<Rightarrow> nat \<Rightarrow> Msg \<Rightarrow> Msg \<Rightarrow> 'w prog_state
     \<Rightarrow> (panic + Msg option) \<times> 'w prog_state" where
  "final_answer ext cfg upstreams n msg answer s =
     (let answer = answer\<lparr>Compress := True\<rparr> in
      case cache s of
        None \<Rightarrow> (Inr (Some answer), s)
      | Some c \<Rightarrow>
          let ttl = ttlFromMsg answer;
              now = time_Now ext (world s);
              expired = Add now (seconds_Duration (uint ttl));
              cachedTTL = CacheTTLOverride (Service cfg);
              expired = (if cachedTTL > 0 then Add now (seconds_Duration cachedTTL)
                         else expired);
              answer = setCachedAnswerTTL ext answer now expired
          in case NewKey msg (upstreams ! n) of
               Inl p \<Rightarrow> (Inl p, s)
             | Inr k \<Rightarrow>
                 (Inr (Some answer),
                  Log LogAddCached (s\<lparr>cache := Some (cache_Add c k (NewValue answer expired))\<rparr>)))"

text \<open>
  The loop over the upstream configurations (lines 259 to 290), at index \<open>n\<close> with the
  configurations from \<open>n\<close> on; \<open>ncfg\<close> is \<open>len(upstreamConfigs)\<close>. It returns the answer
  of \<open>proxy\<close>, or \<open>None\<close> when the loop ends without one. A nil configuration is
  dereferenced in \<open>resolve\<close> (at the latest by \<open>upstreamConfig.Name\<close> in line 223), which
  panics; so does \<open>upstreams[n]\<close> past the end of \<open>upstreams\<close>.
\<close>

fun upstream_loop ::
  "('w, 'r) externals \<Rightarrow> Config \<Rightarrow> string list \<Rightarrow> nat \<Rightarrow> int list \<Rightarrow> Msg \<Rightarrow> bool
     \<Rightarrow> Msg option \<Rightarrow> nat \<Rightarrow> UpstreamConfig option list \<Rightarrow> 'w prog_state
     \<Rightarrow> (panic + Msg option) \<times> 'w prog_state" where
  "upstream_loop ext cfg upstreams ncfg failoverRcodes msg serveStaleCache staleAnswer n [] s =
     (Inr None, s)"
| "upstream_loop ext cfg upstreams ncfg failoverRcodes msg serveStaleCache staleAnswer n
     (uc # rest) s =
     (case uc of
        None \<Rightarrow> (Inl NilDereference, s)
      | Some upstreamConfig \<Rightarrow>
          if n \<ge> length upstreams then (Inl IndexOutOfRange, s)
          else
            (case resolve ext upstreams n upstreamConfig msg s of
               (None, s) \<Rightarrow>
                 (case staleAnswer of
                    Some stale \<Rightarrow>
                      if serveStaleCache
                      then (let s = Log LogServingStale s;
                                now = time_Now ext (world s)
                            in (Inr (Some (setCachedAnswerTTL ext stale now (Add now staleTTL))), s))
                      else upstream_loop ext cfg upstreams ncfg failoverRcodes msg
                             serveStaleCache staleAnswer (Suc n) rest s
                  | None \<Rightarrow>
                      upstream_loop ext cfg upstreams ncfg failoverRcodes msg
                        serveStaleCache staleAnswer (Suc n) rest s)
             | (Some answer, s) \<Rightarrow>
                 if Rcode answer \<noteq> RcodeSuccess \<and> ncfg > 1 \<and>
                    containRcode failoverRcodes (Rcode answer)
                 then upstream_loop ext cfg upstreams ncfg failoverRcodes msg
                        serveStaleCache staleAnswer (Suc n) rest (Log LogFailoverRcode s)
                 else final_answer ext cfg upstreams n msg answer s))"

text \<open>Lines 199 to 203: the configurations of the upstreams, one for each identifier
  (nil for an identifier that is not configured), and the operating system's resolver
  when there is none.\<close>

definition candidate_upstreams ::
  "Config \<Rightarrow> string list \<Rightarrow> UpstreamConfig option list \<times> string list" where
  "candidate_upstreams cfg upstreams =
     (let upstreamConfigs = upstreamConfigsFromUpstreamNumbers cfg upstreams in
      if length upstreamConfigs = 0 then ([Some osUpstreamConfig], [''upstream.os''])
      else (upstreamConfigs, upstreams))"

text \<open>Lines 204 to 221: the cache is read when there is one and the query is not a PTR
  query.\<close>

definition lookup_phase ::
  "('w, 'r) externals \<Rightarrow> 'w prog_state \<Rightarrow> Msg \<Rightarrow> string list \<Rightarrow> panic + lookup_result" where
  "lookup_phase ext s msg upstreams =
     (case cache s of
        None \<Rightarrow> Inr (Miss None)
      | Some c \<Rightarrow>
          (case Question msg of
             [] \<Rightarrow> Inl IndexOutOfRange
           | q # _ \<Rightarrow>
               if Qtype q \<noteq> TypePTR
               then cache_lookup ext c (world s) msg upstreams None
               else Inr (Miss None)))"

definition proxy ::
  "('w, 'r) externals \<Rightarrow> Config \<Rightarrow> string list \<Rightarrow> int list \<Rightarrow> Msg \<Rightarrow> 'w prog_state
     \<Rightarrow> (panic + Msg) \<times> 'w prog_state" where
  "proxy ext cfg upstreams failoverRcodes msg s =
     (let serveStaleCache = (cache s \<noteq> None \<and> CacheServeStale (Service cfg));
          (upstreamConfigs, upstreams) = candidate_upstreams cfg upstreams
      in case lookup_phase ext s msg upstreams of
           Inl p \<Rightarrow> (Inl p, s)
         | Inr (Hit answer) \<Rightarrow> (Inr answer, Log LogHitCached s)
         | Inr (Miss staleAnswer) \<Rightarrow>
             (case upstream_loop ext cfg upstreams (length upstreamConfigs) failoverRcodes msg
                     serveStaleCache staleAnswer 0 upstreamConfigs s of
                (Inl p, s) \<Rightarrow> (Inl p, s)
              | (Inr (Some answer), s) \<Rightarrow> (Inr answer, s)
              | (Inr None, s) \<Rightarrow>
                  (Inr (SetRcode new_Msg msg RcodeServerFailure), Log LogAllFailed s)))"

section \<open>The request handler\<close>

text \<open>The handler that \<open>serveDNS\<close> installs (lines 48 to 70), for the listener
  \<open>listenerNum\<close> with configuration \<open>listenerConfig\<close>, a query \<open>m\<close> and the remote address
  of its sender. It returns the message written to the client.\<close>

definition failoverRcodes_of :: "ListenerConfig \<Rightarrow> int list" where
  "failoverRcodes_of listenerConfig =
     (case Policy listenerConfig of None \<Rightarrow> [] | Some policy \<Rightarrow> FailoverRcodeNumbers policy)"

text \<open>Lines 64 and 65: the response of \<open>proxy\<close> is logged.\<close>

definition log_response ::
  "(panic + Msg) \<times> 'w prog_state \<Rightarrow> (panic + Msg) \<times> 'w prog_state" where
  "log_response r =
     (case r of
        (Inl p, s) \<Rightarrow> (Inl p, s)
      | (Inr answer, s) \<Rightarrow> (Inr answer, Log LogReceivedResponse s))"

definition handler ::
  "('w, 'r) externals \<Rightarrow> Config \<Rightarrow> string \<Rightarrow> ListenerConfig \<Rightarrow> Addr \<Rightarrow> Msg \<Rightarrow> 'w prog_state
     \<Rightarrow> (panic + Msg) \<times> 'w prog_state" where
  "handler ext cfg listenerNum listenerConfig remoteAddr m s =
     (case Question m of
        [] \<Rightarrow> (Inl IndexOutOfRange, s)
      | q # _ \<Rightarrow>
          let domain = canonicalName (Name q);
              s = Log (LogReceivedQuery domain) s;
              (upstreams, matched, line) =
                upstreamFor ext cfg listenerNum listenerConfig remoteAddr domain;
              s = Log line s
          in if \<not> matched \<and> Restricted listenerConfig
             then (Inr (SetRcode new_Msg m RcodeRefused), s)
             else log_response (proxy ext cfg upstreams (failoverRcodes_of listenerConfig) m s))"

section \<open>A concrete setting\<close>

text \<open>
  A small configuration on which the functions above are run: a network \<open>lan\<close>
  (192.168.1.0/24), five upstreams, of which \<open>good\<close> and \<open>good too\<close> answer with one
  record of TTL 300, \<open>down\<close> fails every attempt, \<open>broken\<close> answers SERVFAIL and \<open>flaky\<close>
  answers like \<open>good\<close> until the clock reaches 200 seconds and fails from then on, a
  policy with one network rule and one domain rule, a world that is the clock in
  nanoseconds, and a platform that converts a float that does not fit to 0. \<open>ex_Contains\<close> compares the masked bytes of two addresses of equal length.
  \<open>ex_cache\<close> is the cache after \<open>proxy\<close> has resolved the query for \<open>example.com.\<close> on
  \<open>upstream.4\<close> at time 0.
\<close>

definition ex_Contains :: "IPNet \<Rightarrow> IP \<Rightarrow> bool" where
  "ex_Contains n ip =
     (length ip = length (net_IP n) \<and> length (Mask n) = length ip \<and>
      map2 and ip (Mask n) = map2 and (net_IP n) (Mask n))"

definition ex_rr :: "32 word \<Rightarrow> RR" where
  "ex_rr ttl = \<lparr>hdr_Name = ''example.com.'', Rrtype = 1, Class = 1, Ttl = ttl, Rdlength = 4,
               Rdata = [93, 184, 216, 34]\<rparr>"

definition ex_reply :: "Msg \<Rightarrow> int \<Rightarrow> RR list \<Rightarrow> Msg" where
  "ex_reply msg rcode answers = (SetRcode new_Msg msg rcode)\<lparr>Answer := answers\<rparr>"

definition ex_Resolve ::
  "int \<Rightarrow> UpstreamConfig \<Rightarrow> int option \<Rightarrow> Msg \<Rightarrow> (error + Msg option) \<times> int" where
  "ex_Resolve w r deadline msg =
     (if uc_Name r = ''down'' \<or> (uc_Name r = ''flaky'' \<and> w \<ge> 200 * Second)
      then (Inl ''i/o timeout'', w)
      else if uc_Name r = ''broken'' then (Inr (Some (ex_reply msg RcodeServerFailure [])), w)
      else (Inr (Some (ex_reply msg RcodeSuccess [ex_rr 300])), w))"

definition ex_ext :: "(int, UpstreamConfig) externals" where
  "ex_ext =
     \<lparr>Contains = ex_Contains, time_Now = (\<lambda>w. w), NewResolver = (\<lambda>w uc. (Inr uc, w)),
      Resolve = ex_Resolve, ReBootstrap = (\<lambda>w uc. w), ClientInfo = (\<lambda>w uc m. w),
      uint32_overflow = (\<lambda>f. 0)\<rparr>"

definition ex_upstream :: "string \<Rightarrow> UpstreamConfig" where
  "ex_upstream name =
     \<lparr>uc_Name = name, uc_Type = ResolverTypeOther ''doh'', Timeout = 5000, SendClientInfo = False\<rparr>"

definition ex_lan :: IPNet where
  "ex_lan = \<lparr>net_IP = [192, 168, 1, 0], Mask = [255, 255, 255, 0]\<rparr>"

definition ex_cfg :: Config where
  "ex_cfg =
     \<lparr>Upstream = [''0'' \<mapsto> ex_upstream ''good'', ''1'' \<mapsto> ex_upstream ''good too'',
                  ''2'' \<mapsto> ex_upstream ''down'', ''3'' \<mapsto> ex_upstream ''broken'',
                  ''4'' \<mapsto> ex_upstream ''flaky''],
      Network = [''lan'' \<mapsto> \<lparr>IPNets = [ex_lan]\<rparr>],
      Service = \<lparr>CacheServeStale = True, CacheTTLOverride = 0\<rparr>\<rparr>"

definition ex_policy :: "string list \<Rightarrow> ListenerPolicyConfig" where
  "ex_policy networkTargets =
     \<lparr>policy_Name = ''My Policy'',
      Networks = [[(''network.lan'', networkTargets)]],
      Rules = [[(''ads.example.com'', [''upstream.1''])]],
      FailoverRcodeNumbers = [2]\<rparr>"

definition ex_listener :: "bool \<Rightarrow> ListenerPolicyConfig option \<Rightarrow> ListenerConfig" where
  "ex_listener restricted policy =
     \<lparr>IP = ''127.0.0.1'', Port = 53, Restricted = restricted, Policy = policy\<rparr>"

definition ex_query :: "string \<Rightarrow> 16 word \<Rightarrow> Msg" where
  "ex_query name qtype =
     new_Msg\<lparr>msg_Id := 4660, RecursionDesired := True,
             Question := [\<lparr>Name = name, Qtype = qtype, Qclass = 1\<rparr>]\<rparr>"

definition ex_state :: "Cache option \<Rightarrow> int \<Rightarrow> int prog_state" where
  "ex_state c now = \<lparr>cache = c, world = now, logs = []\<rparr>"

definition ex_key :: Key where
  "ex_key = \<lparr>key_Qtype = 1, key_Qclass = 1, key_Name = ''example.com.'',
             key_Upstream = ''upstream.4''\<rparr>"

definition ex_cache :: Cache where
  "ex_cache =
     cache_Add Map.empty ex_key
       (NewValue
          ((ex_reply (ex_query ''example.com.'' 1) RcodeSuccess [ex_rr 300])\<lparr>Compress := True\<rparr>)
          (300 * Second))"

section \<open>Properties of the conversion to seconds\<close>

text \<open>A number that fits the significand is not moved by the rounding, and the rounding
  does not cross such a number: for a non-negative duration \<open>Seconds\<close> lies between the
  whole seconds of the duration and the next whole second, it is exact for whole
  seconds, and below \<open>2^23\<close> seconds its integer part is the whole seconds.\<close>

lemma round_half_even_ge: "of_int n \<le> x \<Longrightarrow> n \<le> round_half_even x"
proof -
  assume "of_int n \<le> x"
  then have "n \<le> \<lfloor>x\<rfloor>" by (simp add: le_floor_iff)
  then show ?thesis by (simp add: round_half_even_def Let_def)
qed

lemma round_half_even_le: "x \<le> of_int n \<Longrightarrow> round_half_even x \<le> n"
proof (cases "x = of_int n")
  case True
  then show ?thesis by (simp add: round_half_even_def Let_def)
next
  case False
  assume "x \<le> of_int n"
  with False have "x < of_int n" by simp
  then have "\<lfloor>x\<rfloor> < n" by (simp add: floor_less_iff)
  then show ?thesis by (simp add: round_half_even_def Let_def)
qed

lemma ilog2_less:
  assumes "0 < x" and "x < 2 ^ m"
  shows "ilog2 x < int m"
proof -
  let ?y = "\<lfloor>x * 2 ^ 64\<rfloor>"
  have "x * 2 ^ 64 < 2 ^ m * 2 ^ 64" using assms(2) by simp
  then have "x * 2 ^ 64 < of_int (2 ^ (m + 64))" by (simp add: power_add)
  then have "?y < 2 ^ (m + 64)" by (simp add: floor_less_iff)
  then have "?y < 2 ^ nat (int (m + 64))" by (simp only: nat_int)
  then have "bitlen ?y \<le> int (m + 64)"
    by (simp only: bitlen_le_iff_power) simp
  then show ?thesis by (simp add: ilog2_def)
qed

lemma round_f64_zero [simp]: "round_f64 0 = 0"
  by (simp add: round_f64_def)

lemma round_f64_pos_unfold:
  assumes "0 < x" and "x < 2 ^ (53 - j)" and "j \<le> 53"
  obtains i where "round_f64 x = of_int (round_half_even (x * 2 ^ (j + i))) / 2 ^ (j + i)"
proof -
  have "ilog2 x < int (53 - j)" using assms(1,2) by (rule ilog2_less)
  then have e: "ilog2 x - 52 \<le> - int j" using assms(3) by simp
  define k where "k = nat (52 - ilog2 x)"
  have "j \<le> k" using e by (simp add: k_def)
  then obtain i where k: "k = j + i" using le_Suc_ex by blast
  have p: "pow2 (ilog2 x - 52) = 1 / 2 ^ k"
  proof (cases "ilog2 x - 52 = 0")
    case True
    then show ?thesis by (simp add: pow2_def k_def)
  next
    case False
    with e have "ilog2 x - 52 < 0" by simp
    then show ?thesis by (simp add: pow2_def k_def)
  qed
  have "round_f64 x = of_int (round_half_even (x * 2 ^ k)) / 2 ^ k"
    using assms(1) by (simp add: round_f64_def Let_def p)
  then show ?thesis unfolding k by (rule that)
qed

lemma dyadic_scale: "(of_int c :: rat) / 2 ^ j * 2 ^ (j + i) = of_int (c * 2 ^ i)"
  by (simp add: power_add)

lemma dyadic_unscale: "(of_int (c * 2 ^ i) :: rat) / 2 ^ (j + i) = of_int c / 2 ^ j"
  by (simp add: power_add)

lemma round_f64_le_dyadic:
  assumes "0 < x" and "x \<le> of_int c / 2 ^ j" and "x < 2 ^ (53 - j)" and "j \<le> 53"
  shows "round_f64 x \<le> of_int c / 2 ^ j"
proof -
  obtain i where r: "round_f64 x = of_int (round_half_even (x * 2 ^ (j + i))) / 2 ^ (j + i)"
    using assms(1,3,4) by (rule round_f64_pos_unfold)
  have "x * 2 ^ (j + i) \<le> of_int c / 2 ^ j * 2 ^ (j + i)"
    using assms(2) by (rule mult_right_mono) simp
  then have "x * 2 ^ (j + i) \<le> of_int (c * 2 ^ i)"
    by (simp only: dyadic_scale)
  then have "round_half_even (x * 2 ^ (j + i)) \<le> c * 2 ^ i"
    by (rule round_half_even_le)
  then have "(of_int (round_half_even (x * 2 ^ (j + i))) :: rat) \<le> of_int (c * 2 ^ i)"
    by (simp only: of_int_le_iff)
  then have "(of_int (round_half_even (x * 2 ^ (j + i))) :: rat) / 2 ^ (j + i)
               \<le> of_int (c * 2 ^ i) / 2 ^ (j + i)"
    by (rule divide_right_mono) simp
  then show ?thesis by (simp only: r dyadic_unscale)
qed

lemma round_f64_ge_dyadic:
  assumes "0 < x" and "of_int c / 2 ^ j \<le> x" and "x < 2 ^ (53 - j)" and "j \<le> 53"
  shows "of_int c / 2 ^ j \<le> round_f64 x"
proof -
  obtain i where r: "round_f64 x = of_int (round_half_even (x * 2 ^ (j + i))) / 2 ^ (j + i)"
    using assms(1,3,4) by (rule round_f64_pos_unfold)
  have "of_int c / 2 ^ j * 2 ^ (j + i) \<le> x * 2 ^ (j + i)"
    using assms(2) by (rule mult_right_mono) simp
  then have "of_int (c * 2 ^ i) \<le> x * 2 ^ (j + i)"
    by (simp only: dyadic_scale)
  then have "c * 2 ^ i \<le> round_half_even (x * 2 ^ (j + i))"
    by (rule round_half_even_ge)
  then have "(of_int (c * 2 ^ i) :: rat) \<le> of_int (round_half_even (x * 2 ^ (j + i)))"
    by (simp only: of_int_le_iff)
  then have "(of_int (c * 2 ^ i) :: rat) / 2 ^ (j + i)
               \<le> of_int (round_half_even (x * 2 ^ (j + i))) / 2 ^ (j + i)"
    by (rule divide_right_mono) simp
  then show ?thesis by (simp only: r dyadic_unscale)
qed

lemma round_f64_int:
  assumes "0 \<le> n" and "n < 2 ^ 53"
  shows "round_f64 (of_int n) = of_int n"
proof (cases "n = 0")
  case True
  then show ?thesis by simp
next
  case False
  with assms(1) have p: "(0::rat) < of_int n" by simp
  have b: "(of_int n :: rat) < 2 ^ (53 - 0)"
    using assms(2) by (metis diff_zero of_int_less_numeral_power_cancel_iff)
  have "round_f64 (of_int n) \<le> of_int n / 2 ^ 0"
    by (rule round_f64_le_dyadic[OF p _ b]) simp_all
  moreover have "of_int n / 2 ^ 0 \<le> round_f64 (of_int n)"
    by (rule round_f64_ge_dyadic[OF p _ b]) simp_all
  ultimately show ?thesis by simp
qed

lemma Seconds_nonneg_unfold:
  assumes "0 \<le> d" and "d < 2 ^ 63"
  shows "Seconds d =
           round_f64 (of_int (d div Second) + round_f64 (of_int (d mod Second) / 1000000000))"
proof -
  have s: "sgn d * (\<bar>d\<bar> div Second) = d div Second" "sgn d * (\<bar>d\<bar> mod Second) = d mod Second"
    using assms(1) by (cases "d = 0"; simp)+
  have "0 \<le> d div Second" "d div Second < 2 ^ 53"
    using assms by (simp_all add: Second_def)
  then have 1: "round_f64 (of_int (d div Second)) = of_int (d div Second)"
    by (rule round_f64_int)
  have "0 \<le> d mod Second" "d mod Second < 2 ^ 53"
    using pos_mod_bound[of Second d] by (simp_all add: Second_def)
  then have 2: "round_f64 (of_int (d mod Second)) = of_int (d mod Second)"
    by (rule round_f64_int)
  show ?thesis by (simp add: Seconds_def Let_def s 1 2)
qed

lemma fraction_bounds:
  assumes "0 \<le> n" and "n < 1000000000"
  shows "0 \<le> round_f64 (of_int n / 1000000000)"
    and "round_f64 (of_int n / 1000000000) \<le> of_int (2 ^ 30 - 1) / 2 ^ 30"
proof -
  let ?x = "(of_int n :: rat) / 1000000000"
  have le: "?x \<le> of_int (2 ^ 30 - 1) / 2 ^ 30"
  proof -
    have "n \<le> 999999999" using assms(2) by simp
    then have "(of_int n :: rat) \<le> 999999999" by (metis of_int_le_numeral_iff)
    then have "?x \<le> 999999999 / 1000000000" by (simp add: divide_right_mono)
    also have "\<dots> \<le> of_int (2 ^ 30 - 1) / 2 ^ 30" by simp
    finally show ?thesis .
  qed
  have lt: "?x < 2 ^ (53 - 30)"
    using le by (rule le_less_trans) simp
  show "0 \<le> round_f64 ?x"
  proof (cases "n = 0")
    case True
    then show ?thesis by simp
  next
    case False
    with assms(1) have p: "0 < ?x" by simp
    have "of_int 0 / 2 ^ 30 \<le> round_f64 ?x"
      using p _ lt by (rule round_f64_ge_dyadic) (use p in simp_all)
    then show ?thesis by simp
  qed
  show "round_f64 ?x \<le> of_int (2 ^ 30 - 1) / 2 ^ 30"
  proof (cases "n = 0")
    case True
    then show ?thesis by simp
  next
    case False
    with assms(1) have p: "0 < ?x" by simp
    show ?thesis using p le lt by (rule round_f64_le_dyadic) simp
  qed
qed

lemma Seconds_bounds:
  assumes "0 \<le> d" and "d < 2 ^ 63"
  shows "of_int (d div Second) \<le> Seconds d" and "Seconds d \<le> of_int (d div Second) + 1"
proof -
  let ?sec = "d div Second"
  let ?q = "round_f64 (of_int (d mod Second) / 1000000000)"
  let ?x = "(of_int ?sec :: rat) + ?q"
  have sec: "0 \<le> ?sec" "?sec < 2 ^ 34" using assms by (simp_all add: Second_def)
  have n: "0 \<le> d mod Second" "d mod Second < 1000000000"
    using pos_mod_bound[of Second d] by (simp_all add: Second_def)
  have q: "0 \<le> ?q" "?q \<le> of_int (2 ^ 30 - 1) / 2 ^ 30"
    using n by (rule fraction_bounds)+
  have q1: "?q \<le> 1" using q(2) by simp
  have "(of_int ?sec :: rat) < 2 ^ 34" using sec(2) by (metis of_int_less_numeral_power_cancel_iff)
  then have lt: "?x < 2 ^ (53 - 0)" using q1 by simp
  have S: "Seconds d = round_f64 ?x" using assms by (rule Seconds_nonneg_unfold)
  show "of_int ?sec \<le> Seconds d"
  proof (cases "?x = 0")
    case True
    with q(1) sec(1) have "(of_int ?sec :: rat) = 0"
      by (metis add_nonneg_eq_0_iff of_int_0_le_iff)
    with True S show ?thesis by simp
  next
    case False
    with q(1) sec(1) have p: "0 < ?x" by (simp add: add_nonneg_nonneg less_le)
    have "of_int ?sec / 2 ^ 0 \<le> round_f64 ?x"
      using p _ lt by (rule round_f64_ge_dyadic) (use q(1) in simp_all)
    with S show ?thesis by simp
  qed
  show "Seconds d \<le> of_int ?sec + 1"
  proof (cases "?x = 0")
    case True
    with S sec(1) show ?thesis by simp
  next
    case False
    with q(1) sec(1) have p: "0 < ?x" by (simp add: add_nonneg_nonneg less_le)
    have "round_f64 ?x \<le> of_int (?sec + 1) / 2 ^ 0"
      using p _ lt by (rule round_f64_le_dyadic) (use q1 in simp_all)
    with S show ?thesis by simp
  qed
qed

lemma Seconds_whole:
  assumes "0 \<le> d" and "d < 2 ^ 63" and "d mod Second = 0"
  shows "Seconds d = of_int (d div Second)"
proof -
  have "0 \<le> d div Second" "d div Second < 2 ^ 53"
    using assms by (simp_all add: Second_def)
  then have "round_f64 (of_int (d div Second)) = of_int (d div Second)"
    by (rule round_f64_int)
  then show ?thesis
    using Seconds_nonneg_unfold[OF assms(1,2)] assms(3) by simp
qed

lemma Seconds_small:
  assumes "0 \<le> d" and "d < 2 ^ 23 * Second"
  shows "\<lfloor>Seconds d\<rfloor> = d div Second"
proof -
  let ?sec = "d div Second"
  let ?q = "round_f64 (of_int (d mod Second) / 1000000000)"
  let ?x = "(of_int ?sec :: rat) + ?q"
  have d63: "d < 2 ^ 63" using assms(2) by (simp add: Second_def)
  have sec: "0 \<le> ?sec" "?sec < 2 ^ 23"
    using assms by (simp_all add: Second_def div_less_iff_less_mult)
  have n: "0 \<le> d mod Second" "d mod Second < 1000000000"
    using pos_mod_bound[of Second d] by (simp_all add: Second_def)
  have q: "0 \<le> ?q" "?q \<le> of_int (2 ^ 30 - 1) / 2 ^ 30"
    using n by (rule fraction_bounds)+
  have S: "Seconds d = round_f64 ?x" using assms(1) d63 by (rule Seconds_nonneg_unfold)
  have lo: "of_int ?sec \<le> Seconds d" using assms(1) d63 by (rule Seconds_bounds)
  have "?sec + 1 \<le> 2 ^ 23" using sec(2) by simp
  then have s1: "(of_int ?sec :: rat) + 1 \<le> 2 ^ 23"
    by (metis of_int_1 of_int_add of_int_le_numeral_power_cancel_iff)
  have c: "?x \<le> of_int (?sec * 2 ^ 30 + (2 ^ 30 - 1)) / 2 ^ 30"
    using q(2) by (simp add: add_divide_distrib)
  have c1: "(of_int (?sec * 2 ^ 30 + (2 ^ 30 - 1)) :: rat) / 2 ^ 30 < of_int ?sec + 1"
    by (simp add: add_divide_distrib)
  have lt: "?x < 2 ^ (53 - 30)"
    using c c1 s1 by simp
  have hi: "Seconds d < of_int ?sec + 1"
  proof (cases "?x = 0")
    case True
    with S sec(1) show ?thesis by simp
  next
    case False
    with q(1) sec(1) have p: "0 < ?x" by (simp add: add_nonneg_nonneg less_le)
    have "round_f64 ?x \<le> of_int (?sec * 2 ^ 30 + (2 ^ 30 - 1)) / 2 ^ 30"
      using p c lt by (rule round_f64_le_dyadic) simp
    with c1 S show ?thesis by simp
  qed
  from lo hi show ?thesis by (simp add: floor_unique)
qed

text \<open>From \<open>2^24\<close> seconds on the sum can round up to the next second.\<close>

lemma Seconds_rounds_up: "Seconds (16777216 * Second + 999999999) = 16777217"
  by code_simp

lemma Sub_less: "Sub t u < 2 ^ 63"
  by (simp add: Sub_def)

lemma uint32_of_float64_fits:
  assumes "0 \<le> f" and "\<lfloor>f\<rfloor> < 2 ^ 32"
  shows "uint (uint32_of_float64 ext f) = \<lfloor>f\<rfloor>"
proof -
  have "0 \<le> \<lfloor>f\<rfloor>" using assms(1) by simp
  then show ?thesis
    using assms by (simp add: uint32_of_float64_def uint_word_of_int take_bit_int_eq_self)
qed

lemma uint32_Seconds_bounds:
  assumes "0 \<le> d" and "d \<le> (2 ^ 32 - 1) * Second"
  shows "d div Second \<le> uint (uint32_of_float64 ext (Seconds d))"
    and "uint (uint32_of_float64 ext (Seconds d)) \<le> d div Second + 1"
proof -
  have d63: "d < 2 ^ 63" using assms(2) by (simp add: Second_def)
  have lo: "of_int (d div Second) \<le> Seconds d" and hi: "Seconds d \<le> of_int (d div Second) + 1"
    using assms(1) d63 by (rule Seconds_bounds)+
  have sec: "0 \<le> d div Second" "d div Second \<le> 2 ^ 32 - 1"
    using assms by (simp_all add: Second_def)
  have nn: "0 \<le> Seconds d" using lo sec(1) by (meson of_int_0_le_iff order_trans)
  have fl: "d div Second \<le> \<lfloor>Seconds d\<rfloor>" using lo by (simp add: le_floor_iff)
  have fh: "\<lfloor>Seconds d\<rfloor> \<le> d div Second + 1"
    using hi by (metis floor_mono floor_of_int of_int_1 of_int_add)
  have fit: "\<lfloor>Seconds d\<rfloor> < 2 ^ 32"
  proof (cases "d div Second = 2 ^ 32 - 1")
    case True
    then have "d = (2 ^ 32 - 1) * Second" using assms(2) by (simp add: Second_def)
    then have "d mod Second = 0" by simp
    then have "Seconds d = of_int (d div Second)" using assms(1) d63 by (intro Seconds_whole)
    then show ?thesis using True by simp
  next
    case False
    with sec(2) have "d div Second + 1 \<le> 2 ^ 32 - 1" by simp
    with fh have "\<lfloor>Seconds d\<rfloor> \<le> 2 ^ 32 - 1" by (rule order_trans)
    then show ?thesis by linarith
  qed
  have u: "uint (uint32_of_float64 ext (Seconds d)) = \<lfloor>Seconds d\<rfloor>"
    using nn fit by (rule uint32_of_float64_fits)
  show "d div Second \<le> uint (uint32_of_float64 ext (Seconds d))" using fl u by simp
  show "uint (uint32_of_float64 ext (Seconds d)) \<le> d div Second + 1" using fh u by simp
qed

lemma uint32_Seconds_whole:
  assumes "0 \<le> d" and "d \<le> (2 ^ 32 - 1) * Second" and "d mod Second = 0"
  shows "uint (uint32_of_float64 ext (Seconds d)) = d div Second"
proof -
  have d63: "d < 2 ^ 63" using assms(2) by (simp add: Second_def)
  have S: "Seconds d = of_int (d div Second)" using assms(1) d63 assms(3) by (rule Seconds_whole)
  have sec: "0 \<le> d div Second" "d div Second < 2 ^ 32"
    using assms by (simp_all add: Second_def)
  show ?thesis
    using uint32_of_float64_fits[of "Seconds d" ext] sec by (simp add: S)
qed

lemma uint32_Seconds_small:
  assumes "0 \<le> d" and "d < 2 ^ 23 * Second"
  shows "uint (uint32_of_float64 ext (Seconds d)) = d div Second"
proof -
  have d63: "d < 2 ^ 63" using assms(2) by (simp add: Second_def)
  have fl: "\<lfloor>Seconds d\<rfloor> = d div Second" using assms by (rule Seconds_small)
  have "of_int (d div Second) \<le> Seconds d" using assms(1) d63 by (rule Seconds_bounds)
  moreover have sec: "0 \<le> d div Second" "d div Second < 2 ^ 32"
    using assms by (simp_all add: Second_def div_less_iff_less_mult)
  ultimately have nn: "0 \<le> Seconds d" by (meson of_int_0_le_iff order_trans)
  show ?thesis
    using uint32_of_float64_fits[OF nn, of ext] fl sec by simp
qed

section \<open>Properties of wildcard matching\<close>

lemma HasPrefix_iff: "HasPrefix s pre = prefix pre s"
  by (auto simp: HasPrefix_def prefix_def) (metis append_eq_conv_conj)

lemma HasSuffix_iff: "HasSuffix s suf = suffix suf s"
proof
  assume "HasSuffix s suf"
  then have "s = take (length s - length suf) s @ suf"
    by (metis HasSuffix_def append_take_drop_id)
  then show "suffix suf s" by (metis suffixI)
next
  assume "suffix suf s"
  then obtain xs where "s = xs @ suf" by (auto simp: suffix_def)
  then show "HasSuffix s suf" by (simp add: HasSuffix_def)
qed

lemma Split_not_Nil: "Split s c \<noteq> []"
  by (induction s) auto

lemma length_Split: "length (Split s c) = Suc (count_list s c)"
  by (induction s) (auto simp: Split_not_Nil)

lemma Split_no_sep: "c \<notin> set s \<Longrightarrow> Split s c = [s]"
  by (induction s) auto

lemma Split_one_sep:
  "count_list s c = 1 \<Longrightarrow>
   Split s c = [takeWhile (\<lambda>x. x \<noteq> c) s, drop (Suc (length (takeWhile (\<lambda>x. x \<noteq> c) s))) s]"
proof (induction s)
  case Nil
  then show ?case by simp
next
  case (Cons a s)
  show ?case
  proof (cases "a = c")
    case True
    with Cons.prems have "count_list s c = 0" by simp
    then have "c \<notin> set s" by (simp add: count_list_0_iff)
    with True show ?thesis by (simp add: Split_no_sep)
  next
    case False
    with Cons.prems have "count_list s c = 1" by simp
    from Cons.IH[OF this] False show ?thesis by simp
  qed
qed

lemma wildcardMatches_refines: "wildcardMatches P D = wildcard_spec P D"
proof (cases "count_list P (CHR ''*'') = 1")
  case True
  show ?thesis
    using True
    by (auto simp: wildcardMatches_def wildcard_spec_def Split_one_sep HasPrefix_iff HasSuffix_iff Let_def)
next
  case False
  then show ?thesis
    by (simp add: wildcardMatches_def wildcard_spec_def length_Split)
qed

text \<open>
  C5. For every pattern \<open>P\<close> and domain \<open>D\<close>, \<open>wildcardMatches P D\<close> holds exactly when
  \<open>P\<close> has one \<open>*\<close> and \<open>D\<close> meets the prefix and suffix condition of the specification
  (\<open>wildcard_spec\<close>); a pattern with no \<open>*\<close> or with more than one, and the pattern \<open>*\<close>
  alone, match no domain.
\<close>

theorem wildcardMatches_spec:
  "wildcardMatches P D = wildcard_spec P D \<and>
   (count_list P (CHR ''*'') \<noteq> 1 \<longrightarrow> \<not> wildcardMatches P D) \<and>
   \<not> wildcardMatches ''*'' D"
  using wildcardMatches_refines[of P D] wildcardMatches_refines[of "''*''" D]
  by (simp add: wildcard_spec_def)

theorem wildcardMatches_spec_witness:
  "count_list ''a*b*c'' (CHR ''*'') \<noteq> 1 \<and> \<not> wildcardMatches ''a*b*c'' ''abc'' \<and>
   \<not> wildcardMatches ''*'' ''abc''"
proof -
  have h: "count_list ''a*b*c'' (CHR ''*'') \<noteq> 1" by simp
  from wildcardMatches_spec[of "''a*b*c''" "''abc''"] h show ?thesis by blast
qed

section \<open>Properties of name canonicalisation\<close>

section \<open>Properties of name canonicalisation\<close>

lemma toLower_byte_idem: "toLower_byte (toLower_byte c) = toLower_byte c"
  by (simp add: toLower_byte_def Let_def)

lemma ToLower_idem: "ToLower (ToLower s) = ToLower s"
  by (simp add: ToLower_def toLower_byte_idem)

lemma char_eq_iff_nat: "(c = d) = ((of_char c :: nat) = of_char d)"
  by simp

lemma isSpace_nat:
  "isSpace c = (of_char c \<in> {9, 10, 11, 12, 13, 32 :: nat})"
  by (simp add: isSpace_def char_eq_iff_nat[of c])

lemma isSpace_toLower_byte: "isSpace (toLower_byte c) = isSpace c"
  by (auto simp: isSpace_nat toLower_byte_def Let_def)

lemma toLower_byte_dot: "(toLower_byte c = CHR ''.'') = (c = CHR ''.'')"
  by (auto simp: char_eq_iff_nat[of _ "CHR ''.''"] toLower_byte_def Let_def)

lemma TrimSpace_id: "s = [] \<or> (\<not> isSpace (hd s) \<and> \<not> isSpace (last s)) \<Longrightarrow> TrimSpace s = s"
proof -
  assume a: "s = [] \<or> (\<not> isSpace (hd s) \<and> \<not> isSpace (last s))"
  have "dropWhile isSpace s = s" using a by (auto simp: dropWhile_eq_self_iff)
  moreover have "dropWhile isSpace (rev s) = rev s"
    using a by (auto simp: dropWhile_eq_self_iff hd_rev)
  ultimately show ?thesis by (simp add: TrimSpace_def)
qed

lemma TrimSuffix_dot_append: "TrimSuffix (b @ ''.'') ''.'' = b"
  by (simp add: TrimSuffix_def HasSuffix_def)

lemma TrimSuffix_dot_id: "b = [] \<or> last b \<noteq> CHR ''.'' \<Longrightarrow> TrimSuffix b ''.'' = b"
  by (auto simp: TrimSuffix_def HasSuffix_iff suffix_def)

lemma Split_chars: "x \<in> set s \<Longrightarrow> x = c \<or> (\<exists>l \<in> set (Split s c). x \<in> set l)"
proof (induction s)
  case Nil then show ?case by simp
next
  case (Cons a s)
  obtain p ps where sp: "Split s c = p # ps"
    using Split_not_Nil[of s c] by (cases "Split s c") auto
  show ?case using Cons sp by (auto split: if_splits)
qed

lemma Split_last_nonempty: "last (Split s c) \<noteq> [] \<Longrightarrow> s \<noteq> [] \<and> last s \<noteq> c"
proof (induction s)
  case Nil then show ?case by simp
next
  case (Cons a s)
  obtain p ps where sp: "Split s c = p # ps"
    using Split_not_Nil[of s c] by (cases "Split s c") auto
  show ?case using Cons sp by (cases s) (auto simp: Split_not_Nil split: if_splits)
qed

lemma is_FQDN_body:
  assumes "is_FQDN s"
  obtains b where "s = b @ ''.''" "list_all (\<lambda>c. \<not> isSpace c) b" "b = [] \<or> last b \<noteq> CHR ''.''"
proof -
  let ?b = "butlast s"
  from assms have s: "s = ?b @ ''.''"
    by (metis is_FQDN_def append_butlast_last_id)
  have dot: "\<not> isSpace (CHR ''.'')" by (simp add: isSpace_def)
  show ?thesis
  proof (cases "?b = []")
    case True
    with s that[of ?b] show ?thesis by simp
  next
    case False
    with assms have labels: "list_all is_label (Split ?b (CHR ''.''))" by (simp add: is_FQDN_def)
    have "\<not> isSpace x" if "x \<in> set ?b" for x
      using Split_chars[OF that, of "CHR ''.''"] labels dot
      by (auto simp: list_all_iff is_label_def)
    then have 1: "list_all (\<lambda>c. \<not> isSpace c) ?b" by (simp add: list_all_iff)
    have "last (Split ?b (CHR ''.'')) \<noteq> []"
      using labels Split_not_Nil[of ?b "CHR ''.''"]
      by (metis is_label_def last_in_set list_all_iff)
    then have 2: "last ?b \<noteq> CHR ''.''" using Split_last_nonempty by blast
    from that[OF s 1] 2 show ?thesis by simp
  qed
qed

lemma canonicalName_FQDN:
  assumes "s = b @ ''.''" "list_all (\<lambda>c. \<not> isSpace c) b" "b = [] \<or> last b \<noteq> CHR ''.''"
  shows "canonicalName s = ToLower b" "canonicalName (ToLower b) = ToLower b"
proof -
  have dot: "\<not> isSpace (CHR ''.'')" by (simp add: isSpace_def)
  have "TrimSpace s = s"
    using assms(1,2) dot by (intro TrimSpace_id) (cases b; simp)
  then show "canonicalName s = ToLower b"
    by (simp add: canonicalName_def assms(1) TrimSuffix_dot_append)
  have ns: "list_all (\<lambda>c. \<not> isSpace c) (ToLower b)"
    using assms(2) by (simp add: ToLower_def list_all_iff isSpace_toLower_byte)
  have "TrimSpace (ToLower b) = ToLower b"
  proof (cases "ToLower b = []")
    case True then show ?thesis by (simp add: TrimSpace_id)
  next
    case False
    then show ?thesis using ns by (intro TrimSpace_id) (auto simp: list_all_iff)
  qed
  moreover have "TrimSuffix (ToLower b) ''.'' = ToLower b"
    using assms(3) by (intro TrimSuffix_dot_id) (auto simp: ToLower_def last_map toLower_byte_dot)
  ultimately show "canonicalName (ToLower b) = ToLower b"
    by (simp add: canonicalName_def ToLower_idem)
qed

text \<open>On a host name canonicalising twice gives what canonicalising once gives.\<close>

lemma canonicalName_idempotent_host_name:
  "is_FQDN s \<Longrightarrow> canonicalName (canonicalName s) = canonicalName s"
  by (erule is_FQDN_body) (simp add: canonicalName_FQDN)

lemma dropWhile_isSpace_ToLower: "dropWhile isSpace (ToLower x) = ToLower (dropWhile isSpace x)"
  by (induction x) (simp_all add: ToLower_def isSpace_toLower_byte)

lemma TrimSpace_ToLower: "TrimSpace (ToLower t) = ToLower (TrimSpace t)"
proof -
  have r: "rev (ToLower x) = ToLower (rev x)" for x by (simp add: ToLower_def rev_map)
  show ?thesis by (simp add: TrimSpace_def dropWhile_isSpace_ToLower r)
qed

lemma TrimSuffix_dot:
  "TrimSuffix x ''.'' = (if x \<noteq> [] \<and> last x = CHR ''.'' then butlast x else x)"
proof -
  have "HasSuffix x ''.'' = (x \<noteq> [] \<and> last x = CHR ''.'')"
    unfolding HasSuffix_iff suffix_def
    by (metis append_butlast_last_id last_snoc snoc_eq_iff_butlast)
  then show ?thesis by (simp add: TrimSuffix_def butlast_conv_take)
qed

lemma TrimSuffix_ToLower: "TrimSuffix (ToLower x) ''.'' = ToLower (TrimSuffix x ''.'')"
  by (cases "x = []")
     (simp_all add: TrimSuffix_dot ToLower_def last_map map_butlast toLower_byte_dot)

lemma canonicalName_ToLower:
  "canonicalName (ToLower t) = ToLower (TrimSuffix (TrimSpace t) ''.'')"
  by (simp add: canonicalName_def TrimSpace_ToLower TrimSuffix_ToLower ToLower_idem)

lemma dropWhile_length_eq: "length (dropWhile P x) = length x \<Longrightarrow> dropWhile P x = x"
proof (cases x)
  case Nil
  then show ?thesis by simp
next
  case (Cons a xs)
  assume l: "length (dropWhile P x) = length x"
  show ?thesis
  proof (cases "P a")
    case True
    have "length (dropWhile P xs) \<le> length xs" by (rule length_dropWhile_le)
    with l Cons True show ?thesis by simp
  next
    case False
    with Cons show ?thesis by simp
  qed
qed

lemma TrimSpace_length: "length (TrimSpace t) \<le> length t"
proof -
  have "length (dropWhile isSpace (rev (dropWhile isSpace t))) \<le> length (rev (dropWhile isSpace t))"
    by (rule length_dropWhile_le)
  also have "\<dots> \<le> length t" by (simp add: length_dropWhile_le)
  finally show ?thesis by (simp add: TrimSpace_def)
qed

lemma TrimSpace_length_eq: "length (TrimSpace t) = length t \<Longrightarrow> TrimSpace t = t"
proof -
  assume l: "length (TrimSpace t) = length t"
  let ?u = "dropWhile isSpace t"
  have 1: "length (dropWhile isSpace (rev ?u)) \<le> length ?u"
    using length_dropWhile_le[of isSpace "rev ?u"] by simp
  have 2: "length ?u \<le> length t" by (rule length_dropWhile_le)
  from l have 3: "length (dropWhile isSpace (rev ?u)) = length t" by (simp add: TrimSpace_def)
  from 1 2 3 have "length ?u = length t" by simp
  then have u: "?u = t" by (rule dropWhile_length_eq)
  from 3 u have "length (dropWhile isSpace (rev t)) = length (rev t)" by simp
  then have "dropWhile isSpace (rev t) = rev t" by (rule dropWhile_length_eq)
  with u show ?thesis by (simp add: TrimSpace_def)
qed

lemma TrimSuffix_dot_length: "length (TrimSuffix y ''.'') \<le> length y"
  by (simp add: TrimSuffix_dot)

lemma TrimSuffix_dot_length_eq:
  "length (TrimSuffix y ''.'') = length y \<Longrightarrow> y = [] \<or> last y \<noteq> CHR ''.''"
proof (cases "y = []")
  case True
  then show ?thesis by simp
next
  case False
  assume l: "length (TrimSuffix y ''.'') = length y"
  show ?thesis
  proof (rule ccontr)
    assume "\<not> (y = [] \<or> last y \<noteq> CHR ''.'')"
    then have "TrimSuffix y ''.'' = butlast y" by (simp add: TrimSuffix_dot)
    with l have "length y - 1 = length y" by simp
    moreover have "0 < length y" using False by simp
    ultimately show False by linarith
  qed
qed

lemma TrimSpace_last: "TrimSpace x \<noteq> [] \<Longrightarrow> \<not> isSpace (last (TrimSpace x))"
proof -
  assume n: "TrimSpace x \<noteq> []"
  let ?y = "dropWhile isSpace (rev (dropWhile isSpace x))"
  from n have y: "?y \<noteq> []" by (simp add: TrimSpace_def)
  then have "\<not> isSpace (hd ?y)" by (rule hd_dropWhile)
  moreover have "last (TrimSpace x) = hd ?y" using y by (simp add: TrimSpace_def last_rev)
  ultimately show ?thesis by simp
qed

lemma TrimSpace_hd: "TrimSpace x \<noteq> [] \<Longrightarrow> \<not> isSpace (hd (TrimSpace x))"
proof -
  assume n: "TrimSpace x \<noteq> []"
  let ?u = "dropWhile isSpace x"
  have "rev ?u = takeWhile isSpace (rev ?u) @ dropWhile isSpace (rev ?u)" by simp
  then have "rev (rev ?u) = rev (takeWhile isSpace (rev ?u) @ dropWhile isSpace (rev ?u))"
    by (rule arg_cong)
  then have u: "?u = TrimSpace x @ rev (takeWhile isSpace (rev ?u))"
    unfolding TrimSpace_def rev_append rev_rev_ident .
  with n have "?u \<noteq> []" by (metis Nil_is_append_conv)
  then have "\<not> isSpace (hd ?u)" by (rule hd_dropWhile)
  moreover have "hd ?u = hd (TrimSpace x)" using u n by (metis hd_append2)
  ultimately show ?thesis by simp
qed

lemma trimmed_hd:
  assumes "t = TrimSuffix (TrimSpace s) ''.''" and "t \<noteq> []"
  shows "\<not> isSpace (hd t)"
proof -
  have n: "TrimSpace s \<noteq> []" using assms by (auto simp: TrimSuffix_dot split: if_splits)
  have b: "hd (butlast y) = hd y" if "butlast y \<noteq> []" for y :: string
    using that by (cases y) auto
  have "hd t = hd (TrimSpace s)"
    using assms n b[of "TrimSpace s"] by (auto simp: TrimSuffix_dot split: if_splits)
  with TrimSpace_hd[OF n] show ?thesis by simp
qed

text \<open>For any string: canonicalising twice gives what canonicalising once gives exactly
  when the string, trimmed of white space and of one trailing dot, is empty or ends in
  neither white space nor a dot.\<close>

lemma canonicalName_idempotent_criterion:
  "(canonicalName (canonicalName s) = canonicalName s) =
   (let t = TrimSuffix (TrimSpace s) ''.''
    in t = [] \<or> (\<not> isSpace (last t) \<and> last t \<noteq> CHR ''.''))"
proof -
  define t where "t = TrimSuffix (TrimSpace s) ''.''"
  have c1: "canonicalName s = ToLower t" by (simp add: canonicalName_def t_def)
  have c2: "canonicalName (ToLower t) = ToLower (TrimSuffix (TrimSpace t) ''.'')"
    by (rule canonicalName_ToLower)
  have main: "(ToLower (TrimSuffix (TrimSpace t) ''.'') = ToLower t) =
        (t = [] \<or> (\<not> isSpace (last t) \<and> last t \<noteq> CHR ''.''))"
  proof
    assume e: "ToLower (TrimSuffix (TrimSpace t) ''.'') = ToLower t"
    then have "length (TrimSuffix (TrimSpace t) ''.'') = length t"
      unfolding ToLower_def by (rule map_eq_imp_length_eq)
    moreover have "length (TrimSuffix (TrimSpace t) ''.'') \<le> length (TrimSpace t)"
      by (rule TrimSuffix_dot_length)
    moreover have "length (TrimSpace t) \<le> length t" by (rule TrimSpace_length)
    ultimately have l: "length (TrimSpace t) = length t"
      "length (TrimSuffix (TrimSpace t) ''.'') = length (TrimSpace t)" by simp_all
    from l(1) have ts: "TrimSpace t = t" by (rule TrimSpace_length_eq)
    from l(2) ts have d: "t = [] \<or> last t \<noteq> CHR ''.''"
      using TrimSuffix_dot_length_eq[of t] by simp
    show "t = [] \<or> (\<not> isSpace (last t) \<and> last t \<noteq> CHR ''.'')"
    proof (cases "t = []")
      case True
      then show ?thesis by simp
    next
      case False
      with ts have "TrimSpace t \<noteq> []" by simp
      from TrimSpace_last[OF this] ts have "\<not> isSpace (last t)" by simp
      with d False show ?thesis by simp
    qed
  next
    assume a: "t = [] \<or> (\<not> isSpace (last t) \<and> last t \<noteq> CHR ''.'')"
    have h: "t = [] \<or> \<not> isSpace (hd t)" using trimmed_hd[OF t_def] by blast
    have "TrimSpace t = t" using a h by (intro TrimSpace_id) blast
    moreover have "TrimSuffix t ''.'' = t" using a by (intro TrimSuffix_dot_id) blast
    ultimately show "ToLower (TrimSuffix (TrimSpace t) ''.'') = ToLower t" by simp
  qed
  show ?thesis unfolding Let_def t_def[symmetric] c1 c2 by (rule main)
qed

lemma presentation_labels_last:
  "presentation_labels s = Some ls \<Longrightarrow>
   ls \<noteq> [] \<and> (last ls = [] \<longrightarrow> s = [] \<or> last s = CHR ''.'')"
proof (induction s arbitrary: ls rule: presentation_labels.induct)
  case 1
  then show ?case by auto
next
  case (2 c)
  then show ?case by (auto split: if_splits)
next
  case (3 c d cs)
  show ?case
  proof (cases "c = CHR 0x5C")
    case True
    with "3.prems" obtain ls' where l: "presentation_labels cs = Some ls'" "printable d"
      and ls: "ls = (c # d # hd ls') # tl ls'"
      by (auto split: if_splits)
    from "3.IH"(1)[OF True l(2) l(1)]
    have ih: "ls' \<noteq> []" "last ls' = [] \<longrightarrow> cs = [] \<or> last cs = CHR ''.''" by simp_all
    show ?thesis
    proof (cases "tl ls' = []")
      case True
      with ls show ?thesis by simp
    next
      case False
      then have "last ls = last ls'" using ls ih(1) by (cases ls') auto
      moreover have "cs \<noteq> []" using l(1) False by (cases cs) auto
      ultimately show ?thesis using ih(2) ls by auto
    qed
  next
    case False
    note nb = False
    show ?thesis
    proof (cases "c = CHR ''.''")
      case True
      with "3.prems" nb obtain ls' where l: "presentation_labels (d # cs) = Some ls'"
        and ls: "ls = [] # ls'"
        by (auto split: if_splits)
      from "3.IH"(2)[OF nb True l]
      have ih: "ls' \<noteq> []" "last ls' = [] \<longrightarrow> d # cs = [] \<or> last (d # cs) = CHR ''.''"
        by simp_all
      then show ?thesis using ls by auto
    next
      case False
      with "3.prems" nb obtain ls' where l: "presentation_labels (d # cs) = Some ls'"
        and p: "printable c \<and> c \<noteq> CHR '' ''" and ls: "ls = (c # hd ls') # tl ls'"
        by (auto split: if_splits)
      from "3.IH"(3)[OF nb False p l]
      have ih: "ls' \<noteq> []" "last ls' = [] \<longrightarrow> d # cs = [] \<or> last (d # cs) = CHR ''.''"
        by simp_all
      show ?thesis
      proof (cases "tl ls' = []")
        case True
        with ls show ?thesis by simp
      next
        case False
        then have "last ls = last ls'" using ls ih(1) by (cases ls') auto
        then show ?thesis using ih(2) ls by auto
      qed
    qed
  qed
qed

lemma presentation_labels_hd:
  "presentation_labels s = Some ls \<Longrightarrow> s \<noteq> [] \<Longrightarrow> \<not> isSpace (hd s)"
proof (cases s rule: presentation_labels.cases)
  case 1
  assume "s \<noteq> []"
  with 1 show ?thesis by simp
next
  case (2 c)
  assume "presentation_labels s = Some ls"
  with 2 show ?thesis
    by (auto simp: isSpace_nat printable_def char_eq_iff_nat[of _ "CHR '' ''"] split: if_splits)
next
  case (3 c d cs)
  assume "presentation_labels s = Some ls"
  with 3 show ?thesis
    by (auto simp: isSpace_nat printable_def char_eq_iff_nat[of _ "CHR '' ''"]
        char_eq_iff_nat[of _ "CHR 0x5C"] char_eq_iff_nat[of _ "CHR ''.''"] split: if_splits)
qed

lemma is_presentation_FQDN_trimmed:
  assumes "is_presentation_FQDN s"
  shows "TrimSuffix (TrimSpace s) ''.'' = butlast s"
proof -
  from assms obtain ls where l: "presentation_labels s = Some ls"
    and n: "length ls \<ge> 2" "last ls = []"
    by (auto simp: is_presentation_FQDN_def split: option.splits)
  have ne: "s \<noteq> []" using l n(1) by (cases s) auto
  with presentation_labels_last[OF l] n(2) have dot: "last s = CHR ''.''" by simp
  have "\<not> isSpace (hd s)" using l ne by (rule presentation_labels_hd)
  moreover have "\<not> isSpace (last s)" by (simp add: dot isSpace_def)
  ultimately have "TrimSpace s = s" by (intro TrimSpace_id) simp
  then show ?thesis using ne dot by (simp add: TrimSuffix_dot)
qed

text \<open>The name whose one label is \<open>a\<close> followed by a space, as the handler receives it: the
  first call leaves the quoted space at the end, the second call trims it.\<close>

theorem canonicalName_not_idempotent_counterexample:
  "is_presentation_FQDN [CHR ''a'', CHR 0x5C, CHR '' '', CHR ''.''] \<and>
   canonicalName [CHR ''a'', CHR 0x5C, CHR '' '', CHR ''.''] = [CHR ''a'', CHR 0x5C, CHR '' ''] \<and>
   canonicalName (canonicalName [CHR ''a'', CHR 0x5C, CHR '' '', CHR ''.'']) = [CHR ''a'', CHR 0x5C] \<and>
   canonicalName (canonicalName [CHR ''a'', CHR 0x5C, CHR '' '', CHR ''.'']) \<noteq>
     canonicalName [CHR ''a'', CHR 0x5C, CHR '' '', CHR ''.'']"
  by code_simp

text \<open>
  C6. For every fully qualified domain name \<open>s\<close> in presentation format, in any letter
  case and with its trailing dot, canonicalising twice gives what canonicalising once
  gives if and only if the name without its trailing dot is empty or ends in neither a
  white-space byte nor a dot, that is, unless the last label ends in a quoted space or
  a quoted dot.
\<close>

theorem canonicalName_idempotent_iff:
  assumes "is_presentation_FQDN s"
  shows "(canonicalName (canonicalName s) = canonicalName s) =
         (butlast s = [] \<or> (\<not> isSpace (last (butlast s)) \<and> last (butlast s) \<noteq> CHR ''.''))"
  using canonicalName_idempotent_criterion[of s] is_presentation_FQDN_trimmed[OF assms]
  by (simp add: Let_def)

theorem canonicalName_idempotent_iff_witness:
  "is_presentation_FQDN ''Ads.Example.COM.'' \<and>
   canonicalName ''Ads.Example.COM.'' = ''ads.example.com'' \<and>
   canonicalName (canonicalName ''Ads.Example.COM.'') = canonicalName ''Ads.Example.COM.''"
proof -
  have h: "is_presentation_FQDN ''Ads.Example.COM.''"
    by code_simp
  have c: "canonicalName ''Ads.Example.COM.'' = ''ads.example.com''"
    by code_simp
  have e: "butlast ''Ads.Example.COM.'' = [] \<or>
           (\<not> isSpace (last (butlast ''Ads.Example.COM.'')) \<and>
            last (butlast ''Ads.Example.COM.'') \<noteq> CHR ''.'')"
    by (simp add: isSpace_def)
  from canonicalName_idempotent_iff[OF h] e h c show ?thesis by blast
qed

text \<open>A last label that ends in a quoted dot fails in the same way.\<close>

lemma canonicalName_quoted_dot:
  "is_presentation_FQDN [CHR ''a'', CHR 0x5C, CHR ''.'', CHR ''.''] \<and>
   canonicalName (canonicalName [CHR ''a'', CHR 0x5C, CHR ''.'', CHR ''.'']) \<noteq>
     canonicalName [CHR ''a'', CHR 0x5C, CHR ''.'', CHR ''.'']"
  by code_simp

section \<open>Properties of the policy matcher and the handler\<close>

lemma networkRule_entries_None:
  "(networkRule_entries ext cfg ip rule = None) =
   (\<forall>(source, targets) \<in> set rule. \<forall>nc. Network cfg (TrimPrefix source ''network.'') = Some nc \<longrightarrow>
      (\<forall>ipNet \<in> set (IPNets nc). \<not> Contains ext ipNet ip))"
proof (induction rule)
  case Nil
  show ?case by simp
next
  case (Cons e rule)
  obtain source targets where e: "e = (source, targets)" by (cases e)
  show ?case
    unfolding e
    by (cases "Network cfg (TrimPrefix source ''network.'')")
       (simp_all add: Cons.IH Let_def list_ex_iff)
qed

lemma networkRules_None:
  "(networkRules ext cfg ip rules = None) =
   (\<forall>rule \<in> set rules. \<forall>(source, targets) \<in> set rule.
      \<forall>nc. Network cfg (TrimPrefix source ''network.'') = Some nc \<longrightarrow>
        (\<forall>ipNet \<in> set (IPNets nc). \<not> Contains ext ipNet ip))"
proof (induction rules)
  case Nil
  show ?case by simp
next
  case (Cons rule rules)
  show ?case
    by (cases "networkRule_entries ext cfg ip rule")
       (use networkRule_entries_None[of ext cfg ip rule] in \<open>simp_all add: Cons.IH\<close>)
qed

lemma domainRule_entries_None:
  "(domainRule_entries domain rule = None) =
   (\<forall>(source, targets) \<in> set rule. source \<noteq> domain \<and> \<not> wildcardMatches source domain)"
proof (induction rule)
  case Nil
  show ?case by simp
next
  case (Cons e rule)
  obtain source targets where e: "e = (source, targets)" by (cases e)
  show ?case unfolding e by (simp add: Cons.IH)
qed

lemma domainRules_None:
  "(domainRules domain rules = None) =
   (\<forall>rule \<in> set rules. \<forall>(source, targets) \<in> set rule.
      source \<noteq> domain \<and> \<not> wildcardMatches source domain)"
proof (induction rules)
  case Nil
  show ?case by simp
next
  case (Cons rule rules)
  show ?case
    by (cases "domainRule_entries domain rule")
       (use domainRule_entries_None[of domain rule] in \<open>simp_all add: Cons.IH\<close>)
qed

lemma upstreamFor_no_policy:
  "Policy lc = None \<Longrightarrow>
   upstreamFor ext cfg num lc addr domain =
     ([''upstream.'' @ num], False,
      upstreamFor_deferred lc addr ''no policy'' ''no network'' ''no rule'' [''upstream.'' @ num] False)"
  by (simp add: upstreamFor_def Let_def)

lemma upstreamFor_unmatched:
  "Policy lc = Some policy \<Longrightarrow>
   networkRules ext cfg (sourceIP_of addr) (Networks policy) = None \<Longrightarrow>
   domainRules domain (Rules policy) = None \<Longrightarrow>
   upstreamFor ext cfg num lc addr domain =
     ([''upstream.'' @ num], False,
      upstreamFor_deferred lc addr ''no policy'' ''no network'' ''no rule'' [''upstream.'' @ num] False)"
  by (simp add: upstreamFor_def Let_def)

text \<open>A domain rule that matches decides the upstreams whatever the network rules say;
  the network that matched is logged as unenforced when its target list is not
  empty.\<close>

lemma upstreamFor_domain_rule:
  assumes "Policy lc = Some policy"
      and "domainRules domain (Rules policy) = Some (source, targets)"
  shows "fst (upstreamFor ext cfg num lc addr domain) = targets"
    and "fst (snd (upstreamFor ext cfg num lc addr domain))"
  using assms by (auto simp: upstreamFor_def Let_def split: option.splits prod.splits)

lemma upstreamFor_domain_over_network:
  assumes "Policy lc = Some policy"
      and "networkRules ext cfg (sourceIP_of addr) (Networks policy) = Some (network, networkTargets)"
      and "domainRules domain (Rules policy) = Some (source, targets)"
      and "networkTargets \<noteq> []"
  shows "upstreamFor ext cfg num lc addr domain =
           (targets, True,
            LogPolicy (policy_Name policy) (network @ '' (unenforced)'') source targets)"
  using assms by (simp add: upstreamFor_def upstreamFor_deferred_def Let_def)

text \<open>
  C8. A query from an address that no network rule contains, for a domain that no
  domain rule matches, is answered REFUSED by the handler of a restricted listener,
  with nothing done but two lines of log: \<open>proxy\<close> is not called and the world is not
  touched. On a listener that is not restricted the handler answers what \<open>proxy\<close> answers
  for the listener's own upstream \<open>upstream.<listenerNum>\<close>.
\<close>

theorem unmatched_query_refused_or_default:
  assumes "Question m = q # qs"
      and "domain = canonicalName (Name q)"
      and "\<forall>policy. Policy lc = Some policy \<longrightarrow>
             (\<forall>rule \<in> set (Networks policy). \<forall>(source, targets) \<in> set rule.
                \<forall>nc. Network cfg (TrimPrefix source ''network.'') = Some nc \<longrightarrow>
                  (\<forall>ipNet \<in> set (IPNets nc). \<not> Contains ext ipNet (sourceIP_of addr)))"
      and "\<forall>policy. Policy lc = Some policy \<longrightarrow>
             (\<forall>rule \<in> set (Rules policy). \<forall>(source, targets) \<in> set rule.
                source \<noteq> domain \<and> \<not> wildcardMatches source domain)"
  shows "(Restricted lc \<longrightarrow>
            handler ext cfg listenerNum lc addr m s =
              (Inr (SetRcode new_Msg m RcodeRefused),
               Log (LogQueryRefused addr) (Log (LogReceivedQuery domain) s)) \<and>
            Rcode (SetRcode new_Msg m RcodeRefused) = 5 \<and>
            world (snd (handler ext cfg listenerNum lc addr m s)) = world s \<and>
            cache (snd (handler ext cfg listenerNum lc addr m s)) = cache s) \<and>
         (\<not> Restricted lc \<longrightarrow>
            handler ext cfg listenerNum lc addr m s =
              log_response
                (proxy ext cfg [''upstream.'' @ listenerNum] (failoverRcodes_of lc) m
                   (Log (LogPolicy ''no policy'' ''no network'' ''no rule''
                           [''upstream.'' @ listenerNum])
                      (Log (LogReceivedQuery domain) s))))"
proof -
  have u: "upstreamFor ext cfg listenerNum lc addr domain =
     ([''upstream.'' @ listenerNum], False,
      upstreamFor_deferred lc addr ''no policy'' ''no network'' ''no rule''
        [''upstream.'' @ listenerNum] False)"
  proof (cases "Policy lc")
    case None
    then show ?thesis by (rule upstreamFor_no_policy)
  next
    case (Some policy)
    from assms(3) Some
    have n: "networkRules ext cfg (sourceIP_of addr) (Networks policy) = None"
      unfolding networkRules_None by blast
    from assms(4) Some have d: "domainRules domain (Rules policy) = None"
      unfolding domainRules_None by blast
    from Some n d show ?thesis by (rule upstreamFor_unmatched)
  qed
  show ?thesis
    using assms(1) u
    by (simp add: handler_def assms(2)[symmetric] upstreamFor_deferred_def Log_def Let_def
        SetRcode_def RcodeRefused_def)
qed

lemma ex_outside_lan:
  "\<forall>policy. Policy (ex_listener r (Some (ex_policy [''upstream.0'']))) = Some policy \<longrightarrow>
     (\<forall>rule \<in> set (Networks policy). \<forall>(source, targets) \<in> set rule.
        \<forall>nc. Network ex_cfg (TrimPrefix source ''network.'') = Some nc \<longrightarrow>
          (\<forall>ipNet \<in> set (IPNets nc). \<not> Contains ex_ext ipNet (sourceIP_of (UDPAddr [10, 0, 0, 7]))))"
  by (simp add: ex_listener_def ex_policy_def ex_cfg_def ex_ext_def ex_Contains_def ex_lan_def
      sourceIP_of_def TrimPrefix_def HasPrefix_def)

lemma ex_no_domain_rule:
  "\<forall>policy. Policy (ex_listener r (Some (ex_policy [''upstream.0'']))) = Some policy \<longrightarrow>
     (\<forall>rule \<in> set (Rules policy). \<forall>(source, targets) \<in> set rule.
        source \<noteq> ''example.org'' \<and> \<not> wildcardMatches source ''example.org'')"
  by (simp add: ex_listener_def ex_policy_def wildcardMatches_def)

lemma ex_canonical: "canonicalName ''Example.org.'' = ''example.org''"
  by code_simp

theorem unmatched_query_refused_or_default_witness:
  "handler ex_ext ex_cfg ''0'' (ex_listener True (Some (ex_policy [''upstream.0''])))
     (UDPAddr [10, 0, 0, 7]) (ex_query ''Example.org.'' 1) (ex_state None 0) =
     (Inr (SetRcode new_Msg (ex_query ''Example.org.'' 1) RcodeRefused),
      Log (LogQueryRefused (UDPAddr [10, 0, 0, 7]))
        (Log (LogReceivedQuery ''example.org'') (ex_state None 0))) \<and>
   handler ex_ext ex_cfg ''0'' (ex_listener False (Some (ex_policy [''upstream.0''])))
     (UDPAddr [10, 0, 0, 7]) (ex_query ''Example.org.'' 1) (ex_state None 0) =
     log_response
       (proxy ex_ext ex_cfg [''upstream.0'']
          (failoverRcodes_of (ex_listener False (Some (ex_policy [''upstream.0'']))))
          (ex_query ''Example.org.'' 1)
          (Log (LogPolicy ''no policy'' ''no network'' ''no rule'' [''upstream.0''])
             (Log (LogReceivedQuery ''example.org'') (ex_state None 0))))"
proof -
  have q: "Question (ex_query ''Example.org.'' 1) =
             \<lparr>Name = ''Example.org.'', Qtype = 1, Qclass = 1\<rparr> # []"
    by (simp add: ex_query_def)
  have d: "''example.org'' = canonicalName (Name \<lparr>Name = ''Example.org.'', Qtype = 1, Qclass = 1\<rparr>)"
    by (simp add: ex_canonical)
  have r: "Restricted (ex_listener True (Some (ex_policy [''upstream.0''])))"
    and o: "\<not> Restricted (ex_listener False (Some (ex_policy [''upstream.0''])))"
    by (simp_all add: ex_listener_def)
  from unmatched_query_refused_or_default
         [where lc = "ex_listener True (Some (ex_policy [''upstream.0'']))"
            and listenerNum = "''0''" and s = "ex_state None 0",
          OF q d ex_outside_lan ex_no_domain_rule]
       unmatched_query_refused_or_default
         [where lc = "ex_listener False (Some (ex_policy [''upstream.0'']))"
            and listenerNum = "''0''" and s = "ex_state None 0",
          OF q d ex_outside_lan ex_no_domain_rule]
       r o
  show ?thesis by simp
qed

text \<open>
  C10. On a listener that is restricted and has no policy, \<open>upstreamFor\<close> reports no
  match for every address and domain, and the handler answers every query REFUSED;
  nothing is done but two lines of log, so no upstream is contacted.
\<close>

theorem restricted_without_policy_refuses:
  assumes "Restricted lc" and "Policy lc = None" and "Question m = q # qs"
  shows "upstreamFor ext cfg listenerNum lc addr domain =
           ([''upstream.'' @ listenerNum], False, LogQueryRefused addr) \<and>
         handler ext cfg listenerNum lc addr m s =
           (Inr (SetRcode new_Msg m RcodeRefused),
            Log (LogQueryRefused addr) (Log (LogReceivedQuery (canonicalName (Name q))) s)) \<and>
         Rcode (SetRcode new_Msg m RcodeRefused) = 5 \<and>
         world (snd (handler ext cfg listenerNum lc addr m s)) = world s \<and>
         cache (snd (handler ext cfg listenerNum lc addr m s)) = cache s"
  using assms
  by (simp add: handler_def upstreamFor_no_policy upstreamFor_deferred_def Log_def Let_def
      SetRcode_def RcodeRefused_def)

theorem restricted_without_policy_refuses_witness:
  "handler ex_ext ex_cfg ''0'' (ex_listener True None) (TCPAddr [192, 168, 1, 10])
     (ex_query ''Ads.Example.com.'' 1) (ex_state None 0) =
     (Inr (SetRcode new_Msg (ex_query ''Ads.Example.com.'' 1) RcodeRefused),
      Log (LogQueryRefused (TCPAddr [192, 168, 1, 10]))
        (Log (LogReceivedQuery (canonicalName ''Ads.Example.com.'')) (ex_state None 0))) \<and>
   Rcode (SetRcode new_Msg (ex_query ''Ads.Example.com.'' 1) RcodeRefused) = 5"
proof -
  have r: "Restricted (ex_listener True None)" and p: "Policy (ex_listener True None) = None"
    by (simp_all add: ex_listener_def)
  have q: "Question (ex_query ''Ads.Example.com.'' 1) =
             \<lparr>Name = ''Ads.Example.com.'', Qtype = 1, Qclass = 1\<rparr> # []"
    by (simp add: ex_query_def)
  from restricted_without_policy_refuses[OF r p q,
         of ex_ext ex_cfg "''0''" "TCPAddr [192, 168, 1, 10]" _ "ex_state None 0"]
  show ?thesis by simp
qed

text \<open>
  C4. When a network rule contains the source address and a domain rule matches the
  domain, \<open>upstreamFor\<close> returns the targets of the domain rule with \<open>matched = true\<close>
  (\<open>upstreamFor_domain_rule\<close>), and it logs the network as unenforced when the network
  rule has targets (\<open>upstreamFor_domain_over_network\<close>). The annotation is tied to the
  length of the network rule's target list: for the network rule \<open>network.lan\<close> with no
  targets, which by itself sends a query from the LAN to no upstream at all, the domain
  rule wins as well, and the log names \<open>network.lan\<close> without the annotation.
\<close>

theorem unenforced_annotation_needs_targets:
  "upstreamFor ex_ext ex_cfg ''0'' (ex_listener False (Some (ex_policy [])))
     (UDPAddr [192, 168, 1, 10]) ''ads.example.com'' =
     ([''upstream.1''], True,
      LogPolicy ''My Policy'' ''network.lan'' ''ads.example.com'' [''upstream.1'']) \<and>
   upstreamFor ex_ext ex_cfg ''0'' (ex_listener False (Some (ex_policy [])))
     (UDPAddr [192, 168, 1, 10]) ''other.example.com'' =
     ([], True, LogPolicy ''My Policy'' ''network.lan'' ''no rule'' []) \<and>
   upstreamFor ex_ext ex_cfg ''0'' (ex_listener False (Some (ex_policy [''upstream.0''])))
     (UDPAddr [192, 168, 1, 10]) ''ads.example.com'' =
     ([''upstream.1''], True,
      LogPolicy ''My Policy'' ''network.lan (unenforced)'' ''ads.example.com'' [''upstream.1''])"
  by code_simp

section \<open>Properties of the proxy engine\<close>

lemma cache_Log [simp]: "cache (Log l s) = cache s"
  and world_Log [simp]: "world (Log l s) = world s"
  by (simp_all add: Log_def)

lemma resolve1_cache: "cache (snd (resolve1 ext upstreams n uc msg s)) = cache s"
  by (simp add: resolve1_def Let_def split: prod.splits sum.splits)

lemma resolve_cache: "cache (snd (resolve ext upstreams n uc msg s)) = cache s"
proof -
  have 1: "\<And>st r st'. resolve1 ext upstreams n uc msg st = (r, st') \<Longrightarrow> cache st' = cache st"
    using resolve1_cache by (metis snd_conv)
  show ?thesis
    by (auto simp: resolve_def Let_def split: prod.splits sum.splits dest!: 1)
qed

lemma NewKey_question: "NewKey msg u = Inr k \<Longrightarrow> Question msg \<noteq> []"
  by (auto simp: NewKey_def split: list.splits)

lemma NewKey_total: "Question msg \<noteq> [] \<Longrightarrow> \<exists>k. NewKey msg u = Inr k"
  by (auto simp: NewKey_def split: list.splits)

lemma Rcode_setCachedAnswerTTL [simp]: "Rcode (setCachedAnswerTTL ext a now e) = Rcode a"
  by (simp add: setCachedAnswerTTL_def Let_def)

lemma final_answer_returns:
  assumes "Question msg \<noteq> [] \<or> cache s = None"
  shows "\<exists>a st. final_answer ext cfg upstreams n msg answer s = (Inr (Some a), st) \<and>
                Rcode a = Rcode answer \<and> Compress a \<and> cache st \<noteq> None = (cache s \<noteq> None)"
proof (cases "cache s")
  case None
  then show ?thesis by (simp add: final_answer_def)
next
  case (Some c)
  with assms have "Question msg \<noteq> []" by simp
  then obtain k where "NewKey msg (upstreams ! n) = Inr k"
    using NewKey_total by blast
  with Some show ?thesis
    by (simp add: final_answer_def Let_def setCachedAnswerTTL_def)
qed

text \<open>
  C2. In the loop of \<open>proxy\<close> over the upstreams, when the resolution at an upstream
  returns a response whose rcode is not success and is one of the failover rcodes: with
  more than one upstream configuration the response is dropped, the cache stays as it
  was, and the loop goes on with the upstreams that follow; with one upstream
  configuration the response is the final answer, which the loop returns with its
  rcode.
\<close>

theorem failover_rcode_next_upstream:
  assumes "resolve ext upstreams n uc msg s = (Some answer, s')"
      and "Rcode answer \<noteq> RcodeSuccess"
      and "containRcode failoverRcodes (Rcode answer)"
      and "n < length upstreams"
      and "Question msg \<noteq> []"
  shows "(1 < ncfg \<longrightarrow>
            upstream_loop ext cfg upstreams ncfg failoverRcodes msg serveStale stale n
              (Some uc # rest) s =
            upstream_loop ext cfg upstreams ncfg failoverRcodes msg serveStale stale (Suc n)
              rest (Log LogFailoverRcode s') \<and>
            cache (Log LogFailoverRcode s') = cache s) \<and>
         (ncfg = 1 \<longrightarrow>
            upstream_loop ext cfg upstreams ncfg failoverRcodes msg serveStale stale n
              (Some uc # rest) s =
            final_answer ext cfg upstreams n msg answer s' \<and>
            (\<exists>a st. final_answer ext cfg upstreams n msg answer s' = (Inr (Some a), st) \<and>
                    Rcode a = Rcode answer))"
proof -
  have c: "cache s' = cache s"
    using resolve_cache[of ext upstreams n uc msg s] assms(1) by simp
  have f: "\<exists>a st. final_answer ext cfg upstreams n msg answer s' = (Inr (Some a), st) \<and>
                  Rcode a = Rcode answer"
    using final_answer_returns[of msg s' ext cfg upstreams n answer] assms(5) by blast
  show ?thesis using assms(1-4) c f by simp
qed

theorem failover_rcode_next_upstream_witness:
  "upstream_loop ex_ext ex_cfg [''upstream.3'', ''upstream.0''] 2 [2] (ex_query ''example.com.'' 1)
     True None 0 [Some (ex_upstream ''broken''), Some (ex_upstream ''good'')]
     (ex_state (Some Map.empty) 0) =
   upstream_loop ex_ext ex_cfg [''upstream.3'', ''upstream.0''] 2 [2] (ex_query ''example.com.'' 1)
     True None 1 [Some (ex_upstream ''good'')]
     (Log LogFailoverRcode
        (Log (LogSendingQuery ''upstream.3'' ''broken'') (ex_state (Some Map.empty) 0))) \<and>
   upstream_loop ex_ext ex_cfg [''upstream.3''] 1 [2] (ex_query ''example.com.'' 1)
     True None 0 [Some (ex_upstream ''broken'')] (ex_state (Some Map.empty) 0) =
   final_answer ex_ext ex_cfg [''upstream.3''] 0 (ex_query ''example.com.'' 1)
     (ex_reply (ex_query ''example.com.'' 1) RcodeServerFailure [])
     (Log (LogSendingQuery ''upstream.3'' ''broken'') (ex_state (Some Map.empty) 0)) \<and>
   map_sum id Rcode
     (fst (proxy ex_ext ex_cfg [''upstream.3'', ''upstream.0''] [2] (ex_query ''example.com.'' 1)
             (ex_state (Some Map.empty) 0))) = Inr 0 \<and>
   logs (snd (proxy ex_ext ex_cfg [''upstream.3'', ''upstream.0''] [2]
                (ex_query ''example.com.'' 1) (ex_state (Some Map.empty) 0))) =
     [LogSendingQuery ''upstream.3'' ''broken'', LogFailoverRcode,
      LogSendingQuery ''upstream.0'' ''good'', LogAddCached] \<and>
   map_sum id Rcode
     (fst (proxy ex_ext ex_cfg [''upstream.3''] [2] (ex_query ''example.com.'' 1)
             (ex_state (Some Map.empty) 0))) = Inr 2"
proof -
  let ?q = "ex_query ''example.com.'' 1"
  let ?s = "ex_state (Some Map.empty) 0"
  let ?a = "ex_reply ?q RcodeServerFailure []"
  have r: "resolve ex_ext ups 0 (ex_upstream ''broken'') ?q ?s =
             (Some ?a, Log (LogSendingQuery (ups ! 0) ''broken'') ?s)" for ups
    by (simp add: resolve_def resolve1_def ex_ext_def ex_Resolve_def ex_upstream_def Let_def
        Log_def ex_state_def)
  have rc: "Rcode ?a \<noteq> RcodeSuccess" "containRcode [2] (Rcode ?a)"
    by (simp_all add: ex_reply_def SetRcode_def RcodeServerFailure_def RcodeSuccess_def)
  have q: "Question ?q \<noteq> []" by (simp add: ex_query_def)
  have two: "(1::nat) < 2" and one: "(1::nat) = 1" by simp_all
  have p1: "map_sum id Rcode (fst (proxy ex_ext ex_cfg [''upstream.3'', ''upstream.0''] [2] ?q ?s)) = Inr 0"
    by code_simp
  have p2: "logs (snd (proxy ex_ext ex_cfg [''upstream.3'', ''upstream.0''] [2] ?q ?s)) =
     [LogSendingQuery ''upstream.3'' ''broken'', LogFailoverRcode,
      LogSendingQuery ''upstream.0'' ''good'', LogAddCached]"
    by code_simp
  have p3: "map_sum id Rcode (fst (proxy ex_ext ex_cfg [''upstream.3''] [2] ?q ?s)) = Inr 2"
    by code_simp
  from failover_rcode_next_upstream
         [OF r[of "[''upstream.3'', ''upstream.0'']"] rc _ q, of 2 ex_cfg True None
            "[Some (ex_upstream ''good'')]"]
       failover_rcode_next_upstream
         [OF r[of "[''upstream.3'']"] rc _ q, of 1 ex_cfg True None "[]"]
       two one p1 p2 p3
  show ?thesis by simp
qed

text \<open>The loop ends without an answer when every configured upstream fails and there
  is no stale answer to serve; \<open>proxy\<close> then answers SERVFAIL.\<close>

lemma upstream_loop_all_fail:
  assumes "\<And>n uc st. fst (resolve ext ups n uc msg st) = None"
      and "list_all (\<lambda>c. c \<noteq> None) cfgs"
      and "n + length cfgs \<le> length ups"
      and "stale = None \<or> \<not> serveStale"
  shows "\<exists>s'. upstream_loop ext cfg ups ncfg failoverRcodes msg serveStale stale n cfgs s =
                (Inr None, s')"
  using assms(2,3)
proof (induction cfgs arbitrary: n s)
  case Nil
  show ?case by simp
next
  case (Cons c cfgs)
  from Cons.prems obtain uc where c: "c = Some uc" by auto
  obtain st where r: "resolve ext ups n uc msg s = (None, st)"
    using assms(1)[of n uc s] by (cases "resolve ext ups n uc msg s") simp
  from Cons.prems have n: "n < length ups" "Suc n + length cfgs \<le> length ups"
    and l: "list_all (\<lambda>c. c \<noteq> None) cfgs" by simp_all
  from Cons.IH[OF l n(2), of st] obtain s' where
    "upstream_loop ext cfg ups ncfg failoverRcodes msg serveStale stale (Suc n) cfgs st =
       (Inr None, s')" by blast
  then show ?case
    using c r n(1) assms(4) by (auto split: option.splits)
qed

lemma candidate_upstreams_length:
  "candidate_upstreams cfg upstreams = (cfgs, ups) \<Longrightarrow> length cfgs = length ups"
  by (auto simp: candidate_upstreams_def upstreamConfigsFromUpstreamNumbers_def Let_def
      split: if_splits)

lemma proxy_all_fail_servfail:
  assumes "candidate_upstreams cfg upstreams = (cfgs, ups)"
      and "list_all (\<lambda>c. c \<noteq> None) cfgs"
      and "lookup_phase ext s msg ups = Inr (Miss stale)"
      and "stale = None \<or> \<not> CacheServeStale (Service cfg)"
      and "\<And>n uc st. fst (resolve ext ups n uc msg st) = None"
  shows "\<exists>s'. proxy ext cfg upstreams failoverRcodes msg s =
                (Inr (SetRcode new_Msg msg RcodeServerFailure), s')"
proof -
  have len: "0 + length cfgs \<le> length ups"
    using candidate_upstreams_length[OF assms(1)] by simp
  have st: "stale = None \<or> \<not> (cache s \<noteq> None \<and> CacheServeStale (Service cfg))"
    using assms(4) by blast
  obtain s' where
    "upstream_loop ext cfg ups (length cfgs) failoverRcodes msg
       (cache s \<noteq> None \<and> CacheServeStale (Service cfg)) stale 0 cfgs s = (Inr None, s')"
    using upstream_loop_all_fail[OF assms(5,2) len st] by blast
  then show ?thesis using assms(1,3) by (simp add: proxy_def)
qed

lemma servfail_echoes_query:
  "Rcode (SetRcode new_Msg msg RcodeServerFailure) = 2 \<and>
   msg_Id (SetRcode new_Msg msg RcodeServerFailure) = msg_Id msg \<and>
   Question (SetRcode new_Msg msg RcodeServerFailure) = take 1 (Question msg) \<and>
   Response (SetRcode new_Msg msg RcodeServerFailure)"
  by (cases "Question msg")
     (simp_all add: SetRcode_def SetReply_def new_Msg_def Let_def RcodeServerFailure_def)

text \<open>
  C9. When every candidate is a configured upstream, every resolution fails and there
  is no stale answer to serve, \<open>proxy\<close> answers SERVFAIL with the identifier and the
  first question of the query (\<open>proxy_all_fail_servfail\<close>, \<open>servfail_echoes_query\<close>). An
  identifier that is not configured stays among the candidates as a nil configuration:
  for the upstreams \<open>upstream.2\<close>, which fails, and \<open>upstream.9\<close>, which is not configured,
  the loop comes to the nil configuration after \<open>upstream.2\<close> has failed twice, and
  \<open>proxy\<close> panics where a SERVFAIL answer is due.
\<close>

theorem exhausted_upstreams_panic:
  "fst (proxy ex_ext ex_cfg [''upstream.2'', ''upstream.9''] [] (ex_query ''example.com.'' 1)
          (ex_state None 0)) = Inl NilDereference \<and>
   logs (snd (proxy ex_ext ex_cfg [''upstream.2'', ''upstream.9''] []
                (ex_query ''example.com.'' 1) (ex_state None 0))) =
     [LogSendingQuery ''upstream.2'' ''down'', LogRetrying,
      LogSendingQuery ''upstream.2'' ''down'', LogFailedResolve] \<and>
   candidate_upstreams ex_cfg [''upstream.2'', ''upstream.9''] =
     ([Some (ex_upstream ''down''), None], [''upstream.2'', ''upstream.9''])"
  by code_simp

text \<open>The candidates of \<open>proxy\<close>: the resolver of the operating system for an empty list
  of identifiers, and otherwise one configuration for each identifier, nil where the
  identifier is not configured. On a nil configuration at the head of the list \<open>proxy\<close>
  panics unless the cache answers.\<close>

lemma candidate_upstreams_Nil:
  "candidate_upstreams cfg [] = ([Some osUpstreamConfig], [''upstream.os''])"
  by (simp add: candidate_upstreams_def upstreamConfigsFromUpstreamNumbers_def)

lemma candidate_upstreams_Cons:
  "candidate_upstreams cfg (u # us) =
     (map (\<lambda>upstream. Upstream cfg (TrimPrefix upstream ''upstream.'')) (u # us), u # us)"
  by (simp add: candidate_upstreams_def upstreamConfigsFromUpstreamNumbers_def)

lemma os_resolver_for_no_upstream:
  "logs (snd (proxy ex_ext ex_cfg [] [] (ex_query ''example.com.'' 1) (ex_state None 0))) =
     [LogSendingQuery ''upstream.os'' ''OS resolver'']"
  by code_simp

lemma proxy_nil_config_panics:
  assumes "candidate_upstreams cfg upstreams = (None # rest, ups)"
      and "lookup_phase ext s msg ups = Inr (Miss stale)"
  shows "proxy ext cfg upstreams failoverRcodes msg s = (Inl NilDereference, s)"
  using assms by (simp add: proxy_def)

text \<open>
  C3. \<open>upstreamConfigsFromUpstreamNumbers\<close> returns one entry for each identifier, nil
  for an identifier that is not configured, so the list is empty only when there is no
  identifier at all; that is the one case in which \<open>proxy\<close> takes the resolver of the
  operating system. An identifier that is not configured stays in the list as a nil
  configuration, and \<open>proxy\<close> panics on it before any upstream is asked.
\<close>

theorem unresolved_upstream_not_substituted:
  "candidate_upstreams ex_cfg [''upstream.9''] = ([None], [''upstream.9'']) \<and>
   fst (proxy ex_ext ex_cfg [''upstream.9''] [] (ex_query ''example.com.'' 1) (ex_state None 0)) =
     Inl NilDereference \<and>
   logs (snd (proxy ex_ext ex_cfg [''upstream.9''] [] (ex_query ''example.com.'' 1)
                (ex_state None 0))) = []"
  by code_simp

text \<open>A PTR query skips the lookup. The store asks for a cache only: whatever the type
  of the query, a final answer is put into the cache under the key of the query and the
  upstream.\<close>

lemma ptr_not_looked_up:
  "Question msg = q # qs \<Longrightarrow> Qtype q = TypePTR \<Longrightarrow> lookup_phase ext s msg upstreams = Inr (Miss None)"
  by (simp add: lookup_phase_def split: option.splits)

lemma final_answer_stores:
  assumes "cache s = Some c" and "NewKey msg (upstreams ! n) = Inr k"
  shows "\<exists>v. cache (snd (final_answer ext cfg upstreams n msg answer s)) = Some (c(k \<mapsto> v))"
  using assms by (auto simp: final_answer_def Let_def cache_Add_def)

text \<open>
  C1. A PTR query is not looked up in the cache (\<open>ptr_not_looked_up\<close>). Its answer is
  stored all the same: the test of line 278 asks only whether there is a cache. After
  \<open>proxy\<close> has resolved the PTR query for \<open>4.3.2.1.in-addr.arpa.\<close> on \<open>upstream.0\<close>, the
  cache holds the answer under the key of that query and upstream.
\<close>

theorem ptr_answer_is_cached:
  "map_option
     (\<lambda>c. c \<lparr>key_Qtype = TypePTR, key_Qclass = 1, key_Name = ''4.3.2.1.in-addr.arpa.'',
              key_Upstream = ''upstream.0''\<rparr>)
     (cache (snd (proxy ex_ext ex_cfg [''upstream.0''] []
                    (ex_query ''4.3.2.1.in-addr.arpa.'' TypePTR) (ex_state (Some Map.empty) 0)))) =
   Some (Some (NewValue
     ((ex_reply (ex_query ''4.3.2.1.in-addr.arpa.'' TypePTR) RcodeSuccess [ex_rr 300])
        \<lparr>Compress := True\<rparr>)
     (300 * Second))) \<and>
   logs (snd (proxy ex_ext ex_cfg [''upstream.0''] []
                (ex_query ''4.3.2.1.in-addr.arpa.'' TypePTR) (ex_state (Some Map.empty) 0))) =
     [LogSendingQuery ''upstream.0'' ''good'', LogAddCached]"
  by code_simp

section \<open>Fresh and stale cache entries\<close>

lemma cache_lookup_skip:
  assumes "Question msg \<noteq> []"
      and "\<forall>u \<in> set pre. \<forall>k' v'. NewKey msg u = Inr k' \<longrightarrow> c k' = Some v' \<longrightarrow>
             Expire v' \<le> time_Now ext w"
  shows "\<exists>st'. cache_lookup ext c w msg (pre @ rest) st = cache_lookup ext c w msg rest st'"
  using assms(2)
proof (induction pre arbitrary: st)
  case Nil
  show ?case by auto
next
  case (Cons u pre)
  obtain k where k: "NewKey msg u = Inr k" using NewKey_total[OF assms(1)] by blast
  have ih: "\<exists>st'. cache_lookup ext c w msg (pre @ rest) st0 = cache_lookup ext c w msg rest st'"
    for st0 using Cons.IH[of st0] Cons.prems by simp
  show ?case
  proof (cases "c k")
    case None
    then show ?thesis using k ih[of st] by (simp add: cache_Get_def)
  next
    case (Some v)
    with Cons.prems k have "Expire v \<le> time_Now ext w" by simp
    then show ?thesis
      using k Some ih by (simp add: cache_Get_def Let_def After_def)
  qed
qed

lemma cache_lookup_all_miss:
  assumes "Question msg \<noteq> []"
      and "\<forall>u \<in> set post. \<forall>k'. NewKey msg u = Inr k' \<longrightarrow> c k' = None"
  shows "cache_lookup ext c w msg post st = Inr (Miss st)"
  using assms(2)
proof (induction post)
  case Nil
  show ?case by simp
next
  case (Cons u post)
  obtain k where k: "NewKey msg u = Inr k" using NewKey_total[OF assms(1)] by blast
  with Cons show ?case by (simp add: cache_Get_def)
qed

lemma cache_lookup_fresh:
  assumes "NewKey msg U = Inr k" and "c k = Some v" and "time_Now ext w < Expire v"
  shows "cache_lookup ext c w msg (U # post) st =
           Inr (Hit (setCachedAnswerTTL ext (SetRcode (val_Msg v) msg (Rcode (val_Msg v)))
                       (time_Now ext w) (Expire v)))"
  using assms by (simp add: cache_Get_def Let_def After_def Copy_def)

lemma cache_lookup_stale:
  assumes "NewKey msg U = Inr k" and "c k = Some v" and "Expire v \<le> time_Now ext w"
  shows "cache_lookup ext c w msg (U # post) st =
           cache_lookup ext c w msg post (Some (SetRcode (val_Msg v) msg (Rcode (val_Msg v))))"
  using assms by (simp add: cache_Get_def Let_def After_def Copy_def)

lemma setCachedAnswerTTL_ttls:
  assumes "0 \<le> Sub e now"
  shows "(\<forall>rr \<in> set (Answer (setCachedAnswerTTL ext m now e)).
            Ttl rr = uint32_of_float64 ext (Seconds (Sub e now))) \<and>
         (\<forall>rr \<in> set (Ns (setCachedAnswerTTL ext m now e)).
            Ttl rr = uint32_of_float64 ext (Seconds (Sub e now))) \<and>
         (\<forall>rr \<in> set (Extra (setCachedAnswerTTL ext m now e)).
            Rrtype rr \<noteq> TypeOPT \<longrightarrow> Ttl rr = uint32_of_float64 ext (Seconds (Sub e now)))"
proof -
  have "of_int (Sub e now div Second) \<le> Seconds (Sub e now)"
    using assms Sub_less by (rule Seconds_bounds)
  moreover have "0 \<le> Sub e now div Second" using assms by (simp add: Second_def)
  ultimately have "0 \<le> Seconds (Sub e now)" by (meson of_int_0_le_iff order_trans)
  then show ?thesis by (auto simp: setCachedAnswerTTL_def Let_def)
qed

lemma Sub_in_range: "0 \<le> t - u \<Longrightarrow> t - u < 2 ^ 63 \<Longrightarrow> Sub t u = t - u"
  by (simp add: Sub_def)

lemma Sub_nonneg: "u \<le> t \<Longrightarrow> 0 \<le> Sub t u"
  by (simp add: Sub_def)

lemma stale_window: "uint32_of_float64 ext (Seconds (Sub (Add now staleTTL) now)) = 60"
proof -
  have d: "Sub (Add now staleTTL) now = 60 * Second"
    by (simp add: Sub_def Add_def staleTTL_def Second_def)
  have "uint (uint32_of_float64 ext (Seconds (60 * Second))) = 60 * Second div Second"
    by (rule uint32_Seconds_whole) (simp_all add: Second_def)
  then have "uint (uint32_of_float64 ext (Seconds (60 * Second))) = uint (60 :: 32 word)"
    by (simp add: Second_def)
  then show ?thesis unfolding d by (simp only: word_uint_eq_iff)
qed

lemma proxy_fresh_hit:
  assumes "cache s = Some c" and "NewKey msg U = Inr k"
      and "Qtype (hd (Question msg)) \<noteq> TypePTR" and "c k = Some v"
      and "candidate_upstreams cfg upstreams = (cfgs, pre @ U # post)"
      and "\<forall>u \<in> set pre. \<forall>k' v'. NewKey msg u = Inr k' \<longrightarrow> c k' = Some v' \<longrightarrow>
             Expire v' \<le> time_Now ext (world s)"
      and "time_Now ext (world s) < Expire v"
  shows "proxy ext cfg upstreams failoverRcodes msg s =
           (Inr (setCachedAnswerTTL ext (SetRcode (val_Msg v) msg (Rcode (val_Msg v)))
                   (time_Now ext (world s)) (Expire v)),
            Log LogHitCached s)"
proof -
  have q: "Question msg \<noteq> []" using assms(2) by (rule NewKey_question)
  obtain st' where
    "cache_lookup ext c (world s) msg (pre @ U # post) None =
     cache_lookup ext c (world s) msg (U # post) st'"
    using cache_lookup_skip[OF q assms(6)] by blast
  then have "lookup_phase ext s msg (pre @ U # post) =
     Inr (Hit (setCachedAnswerTTL ext (SetRcode (val_Msg v) msg (Rcode (val_Msg v)))
                 (time_Now ext (world s)) (Expire v)))"
    using assms(1,3) q cache_lookup_fresh[where c = c and ext = ext and w = "world s", OF assms(2,4,7)]
    by (cases "Question msg") (simp_all add: lookup_phase_def)
  then show ?thesis using assms(5) by (simp add: proxy_def)
qed

lemma proxy_stale_served:
  assumes "cache s = Some c" and "NewKey msg U = Inr k"
      and "Qtype (hd (Question msg)) \<noteq> TypePTR" and "c k = Some v"
      and "candidate_upstreams cfg upstreams = (Some uc # rest, pre @ U # post)"
      and "\<forall>u \<in> set pre. \<forall>k' v'. NewKey msg u = Inr k' \<longrightarrow> c k' = Some v' \<longrightarrow>
             Expire v' \<le> time_Now ext (world s)"
      and "Expire v \<le> time_Now ext (world s)"
      and "\<forall>u \<in> set post. \<forall>k'. NewKey msg u = Inr k' \<longrightarrow> c k' = None"
      and "CacheServeStale (Service cfg)"
      and "resolve ext (pre @ U # post) 0 uc msg s = (None, s1)"
  shows "proxy ext cfg upstreams failoverRcodes msg s =
           (Inr (setCachedAnswerTTL ext (SetRcode (val_Msg v) msg (Rcode (val_Msg v)))
                   (time_Now ext (world s1)) (Add (time_Now ext (world s1)) staleTTL)),
            Log LogServingStale s1)"
proof -
  have q: "Question msg \<noteq> []" using assms(2) by (rule NewKey_question)
  obtain st' where
    "cache_lookup ext c (world s) msg (pre @ U # post) None =
     cache_lookup ext c (world s) msg (U # post) st'"
    using cache_lookup_skip[OF q assms(6)] by blast
  then have "lookup_phase ext s msg (pre @ U # post) =
     Inr (Miss (Some (SetRcode (val_Msg v) msg (Rcode (val_Msg v)))))"
    using assms(1,3) q cache_lookup_stale[where c = c and ext = ext and w = "world s", OF assms(2,4,7)] cache_lookup_all_miss[OF q assms(8)]
    by (cases "Question msg") (simp_all add: lookup_phase_def)
  then show ?thesis
    using assms(1,5,9,10) by (simp add: proxy_def Let_def)
qed

text \<open>
  C7. Let the cache hold, for a query that is not a PTR query and an upstream \<open>U\<close> of
  the candidate list, an entry \<open>v\<close>, and let no upstream before \<open>U\<close> in the list have a
  fresh entry.

  If \<open>v\<close> has not expired, \<open>proxy\<close> returns the cached message, made a reply to the query
  by \<open>SetRcode\<close>, in which every record of the answer and authority sections and every
  record of the additional section that is not an OPT record has as TTL the time left
  until the expiry, in seconds as \<open>uint32(Seconds())\<close> gives them; the state changes by one
  line of log only, so no upstream is asked. When the time left is at most \<open>2^32 - 1\<close>
  seconds, that TTL is the whole seconds left or one more, and it is the whole seconds
  left when the time left is a whole number of seconds or less than \<open>2^23\<close> seconds.

  If \<open>v\<close> has expired, the lookup is a miss and the first upstream is asked; when stale
  answers are served, no upstream after \<open>U\<close> has an entry and the resolution fails,
  \<open>proxy\<close> returns the expired message with the TTL of those records set to 60.
\<close>

theorem cached_answer_ttl:
  assumes "cache s = Some c" and "NewKey msg U = Inr k"
      and "Qtype (hd (Question msg)) \<noteq> TypePTR" and "c k = Some v"
      and "candidate_upstreams cfg upstreams = (cfgs, pre @ U # post)"
      and "\<forall>u \<in> set pre. \<forall>k' v'. NewKey msg u = Inr k' \<longrightarrow> c k' = Some v' \<longrightarrow>
             Expire v' \<le> time_Now ext (world s)"
  shows "(time_Now ext (world s) < Expire v \<longrightarrow>
           (let now = time_Now ext (world s);
                a = setCachedAnswerTTL ext (SetRcode (val_Msg v) msg (Rcode (val_Msg v))) now
                      (Expire v);
                ttl = uint32_of_float64 ext (Seconds (Sub (Expire v) now))
            in proxy ext cfg upstreams failoverRcodes msg s = (Inr a, Log LogHitCached s) \<and>
               (\<forall>rr \<in> set (Answer a) \<union> set (Ns a). Ttl rr = ttl) \<and>
               (\<forall>rr \<in> set (Extra a). Rrtype rr \<noteq> TypeOPT \<longrightarrow> Ttl rr = ttl) \<and>
               (Expire v - now \<le> (2 ^ 32 - 1) * Second \<longrightarrow>
                  (Expire v - now) div Second \<le> uint ttl \<and>
                  uint ttl \<le> (Expire v - now) div Second + 1 \<and>
                  ((Expire v - now) mod Second = 0 \<or> Expire v - now < 2 ^ 23 * Second \<longrightarrow>
                     uint ttl = (Expire v - now) div Second)))) \<and>
         (Expire v \<le> time_Now ext (world s) \<and> CacheServeStale (Service cfg) \<and>
          (\<forall>u \<in> set post. \<forall>k'. NewKey msg u = Inr k' \<longrightarrow> c k' = None) \<and>
          cfgs = Some uc # rest \<and> resolve ext (pre @ U # post) 0 uc msg s = (None, s1) \<longrightarrow>
           (let now = time_Now ext (world s1);
                a = setCachedAnswerTTL ext (SetRcode (val_Msg v) msg (Rcode (val_Msg v))) now
                      (Add now staleTTL)
            in proxy ext cfg upstreams failoverRcodes msg s = (Inr a, Log LogServingStale s1) \<and>
               (\<forall>rr \<in> set (Answer a) \<union> set (Ns a). Ttl rr = 60) \<and>
               (\<forall>rr \<in> set (Extra a). Rrtype rr \<noteq> TypeOPT \<longrightarrow> Ttl rr = 60)))"
proof (intro conjI impI)
  assume fresh: "time_Now ext (world s) < Expire v"
  let ?now = "time_Now ext (world s)"
  let ?d = "Expire v - ?now"
  let ?ttl = "uint32_of_float64 ext (Seconds (Sub (Expire v) ?now))"
  have nn: "0 \<le> Sub (Expire v) ?now" using fresh by (simp add: Sub_nonneg)
  have range: "?d div Second \<le> uint ?ttl \<and> uint ?ttl \<le> ?d div Second + 1 \<and>
               (?d mod Second = 0 \<or> ?d < 2 ^ 23 * Second \<longrightarrow> uint ?ttl = ?d div Second)"
    if r: "?d \<le> (2 ^ 32 - 1) * Second"
  proof -
    have p: "0 \<le> ?d" using fresh by simp
    have "?d < 2 ^ 63" using r by (simp add: Second_def)
    then have S: "Sub (Expire v) ?now = ?d" using p by (simp add: Sub_in_range)
    have b: "?d div Second \<le> uint (uint32_of_float64 ext (Seconds ?d))"
            "uint (uint32_of_float64 ext (Seconds ?d)) \<le> ?d div Second + 1"
      using p r by (rule uint32_Seconds_bounds)+
    have w: "uint (uint32_of_float64 ext (Seconds ?d)) = ?d div Second" if "?d mod Second = 0"
      using p r that by (rule uint32_Seconds_whole)
    have m: "uint (uint32_of_float64 ext (Seconds ?d)) = ?d div Second" if "?d < 2 ^ 23 * Second"
      using p that by (rule uint32_Seconds_small)
    show ?thesis unfolding S using b w m by auto
  qed
  show "let now = time_Now ext (world s);
            a = setCachedAnswerTTL ext (SetRcode (val_Msg v) msg (Rcode (val_Msg v))) now
                  (Expire v);
            ttl = uint32_of_float64 ext (Seconds (Sub (Expire v) now))
        in proxy ext cfg upstreams failoverRcodes msg s = (Inr a, Log LogHitCached s) \<and>
           (\<forall>rr \<in> set (Answer a) \<union> set (Ns a). Ttl rr = ttl) \<and>
           (\<forall>rr \<in> set (Extra a). Rrtype rr \<noteq> TypeOPT \<longrightarrow> Ttl rr = ttl) \<and>
           (Expire v - now \<le> (2 ^ 32 - 1) * Second \<longrightarrow>
              (Expire v - now) div Second \<le> uint ttl \<and>
              uint ttl \<le> (Expire v - now) div Second + 1 \<and>
              ((Expire v - now) mod Second = 0 \<or> Expire v - now < 2 ^ 23 * Second \<longrightarrow>
                 uint ttl = (Expire v - now) div Second))"
    unfolding Let_def
    using proxy_fresh_hit[OF assms fresh, of failoverRcodes]
      setCachedAnswerTTL_ttls[OF nn, of ext "SetRcode (val_Msg v) msg (Rcode (val_Msg v))"] range
    by blast
next
  assume stale: "Expire v \<le> time_Now ext (world s) \<and> CacheServeStale (Service cfg) \<and>
          (\<forall>u \<in> set post. \<forall>k'. NewKey msg u = Inr k' \<longrightarrow> c k' = None) \<and>
          cfgs = Some uc # rest \<and> resolve ext (pre @ U # post) 0 uc msg s = (None, s1)"
  let ?now = "time_Now ext (world s1)"
  have nn: "0 \<le> Sub (Add ?now staleTTL) ?now"
    by (simp add: Sub_def Add_def staleTTL_def Second_def)
  have c: "candidate_upstreams cfg upstreams = (Some uc # rest, pre @ U # post)"
    using assms(5) stale by simp
  show "let now = time_Now ext (world s1);
            a = setCachedAnswerTTL ext (SetRcode (val_Msg v) msg (Rcode (val_Msg v))) now
                  (Add now staleTTL)
        in proxy ext cfg upstreams failoverRcodes msg s = (Inr a, Log LogServingStale s1) \<and>
           (\<forall>rr \<in> set (Answer a) \<union> set (Ns a). Ttl rr = 60) \<and>
           (\<forall>rr \<in> set (Extra a). Rrtype rr \<noteq> TypeOPT \<longrightarrow> Ttl rr = 60)"
    unfolding Let_def
    using proxy_stale_served[OF assms(1-4) c assms(6), of s1 failoverRcodes] stale
      setCachedAnswerTTL_ttls[OF nn, of ext "SetRcode (val_Msg v) msg (Rcode (val_Msg v))"]
    by (simp add: stale_window) blast
qed

lemma ex_Seconds_300: "Seconds 300000000000 = 300"
  by code_simp

lemma ex_cache_stored:
  "cache (snd (proxy ex_ext ex_cfg [''upstream.4''] [] (ex_query ''example.com.'' 1)
                 (ex_state (Some Map.empty) 0))) = Some ex_cache"
  by (simp add: proxy_def candidate_upstreams_def upstreamConfigsFromUpstreamNumbers_def
      lookup_phase_def NewKey_def cache_Get_def cache_Add_def NewValue_def ex_cfg_def ex_query_def
      ex_state_def TrimPrefix_def HasPrefix_def TypePTR_def new_Msg_def resolve_def resolve1_def
      ex_ext_def ex_Resolve_def ex_upstream_def ex_reply_def ex_rr_def ex_cache_def ex_key_def
      SetRcode_def SetReply_def final_answer_def ttlFromMsg_def setCachedAnswerTTL_def Sub_def
      Add_def seconds_Duration_def ex_Seconds_300 uint32_of_float64_def Second_def Log_def Let_def
      RcodeSuccess_def OpcodeQuery_def TypeOPT_def)

theorem cached_answer_ttl_witness:
  "map_sum id (\<lambda>a. map Ttl (Answer a))
     (fst (proxy ex_ext ex_cfg [''upstream.4''] [] (ex_query ''example.com.'' 1)
             (ex_state (Some ex_cache) (100 * Second + 5)))) = Inr [199] \<and>
   snd (proxy ex_ext ex_cfg [''upstream.4''] [] (ex_query ''example.com.'' 1)
          (ex_state (Some ex_cache) (100 * Second + 5))) =
     Log LogHitCached (ex_state (Some ex_cache) (100 * Second + 5)) \<and>
   map_sum id (\<lambda>a. map Ttl (Answer a))
     (fst (proxy ex_ext ex_cfg [''upstream.4''] [] (ex_query ''example.com.'' 1)
             (ex_state (Some ex_cache) (400 * Second)))) = Inr [60] \<and>
   logs (snd (proxy ex_ext ex_cfg [''upstream.4''] [] (ex_query ''example.com.'' 1)
                (ex_state (Some ex_cache) (400 * Second)))) =
     [LogSendingQuery ''upstream.4'' ''flaky'', LogRetrying,
      LogSendingQuery ''upstream.4'' ''flaky'', LogFailedResolve, LogServingStale]"
proof -
  let ?q = "ex_query ''example.com.'' 1"
  let ?m = "(ex_reply ?q RcodeSuccess [ex_rr 300])\<lparr>Compress := True\<rparr>"
  let ?v = "NewValue ?m (300 * Second)"
  let ?f = "ex_state (Some ex_cache) (100 * Second + 5)"
  let ?s = "ex_state (Some ex_cache) (400 * Second)"
  let ?s1 = "\<lparr>cache = Some ex_cache, world = 400 * Second,
              logs = [LogSendingQuery ''upstream.4'' ''flaky'', LogRetrying,
                      LogSendingQuery ''upstream.4'' ''flaky'', LogFailedResolve]\<rparr>"
  have c: "cache (ex_state (Some ex_cache) w) = Some ex_cache" for w
    by (simp add: ex_state_def)
  have k: "NewKey ?q ''upstream.4'' = Inr ex_key"
    by (simp add: NewKey_def ex_query_def ex_key_def)
  have t: "Qtype (hd (Question ?q)) \<noteq> TypePTR"
    by (simp add: ex_query_def TypePTR_def)
  have e: "ex_cache ex_key = Some ?v"
    by (simp add: ex_cache_def cache_Add_def)
  have u: "candidate_upstreams ex_cfg [''upstream.4''] =
             ([Some (ex_upstream ''flaky'')], [] @ ''upstream.4'' # [])"
    by code_simp
  have p: "\<forall>u \<in> set []. \<forall>k' v'. NewKey ?q u = Inr k' \<longrightarrow> ex_cache k' = Some v' \<longrightarrow>
             Expire v' \<le> time_Now ex_ext (world (ex_state (Some ex_cache) w))" for w
    by simp
  have now: "time_Now ex_ext (world (ex_state (Some ex_cache) w)) = w" for w
    by (simp add: ex_ext_def ex_state_def)
  have r: "resolve ex_ext ([] @ ''upstream.4'' # []) 0 (ex_upstream ''flaky'') ?q ?s = (None, ?s1)"
    by (simp add: resolve_def resolve1_def ex_ext_def ex_Resolve_def ex_upstream_def Let_def
        Log_def ex_state_def Second_def)
  have t1: "map Ttl (Answer (setCachedAnswerTTL ex_ext (SetRcode ?m ?q (Rcode ?m)) (100 * Second + 5)
                              (300 * Second))) = [199]"
    by code_simp
  have t2: "map Ttl (Answer (setCachedAnswerTTL ex_ext (SetRcode ?m ?q (Rcode ?m)) (400 * Second)
                              (Add (400 * Second) staleTTL))) = [60]"
    by code_simp
  have hf: "time_Now ex_ext (world ?f) < Expire ?v"
    by (simp add: now NewValue_def Second_def)
  have fresh: "proxy ex_ext ex_cfg [''upstream.4''] [] ?q ?f =
                 (Inr (setCachedAnswerTTL ex_ext (SetRcode ?m ?q (Rcode ?m)) (100 * Second + 5)
                         (300 * Second)),
                  Log LogHitCached ?f)"
    using cached_answer_ttl[where failoverRcodes = "[]", OF c[of "100 * Second + 5"] k t e u p,
            THEN conjunct1, rule_format, OF hf, unfolded Let_def now, THEN conjunct1]
    by (simp add: NewValue_def)
  have now1: "time_Now ex_ext (world ?s1) = 400 * Second"
    by (simp add: ex_ext_def)
  have hs: "Expire ?v \<le> time_Now ex_ext (world ?s) \<and> CacheServeStale (Service ex_cfg) \<and>
            (\<forall>u \<in> set []. \<forall>k'. NewKey ?q u = Inr k' \<longrightarrow> ex_cache k' = None) \<and>
            [Some (ex_upstream ''flaky'')] = Some (ex_upstream ''flaky'') # [] \<and>
            resolve ex_ext ([] @ ''upstream.4'' # []) 0 (ex_upstream ''flaky'') ?q ?s = (None, ?s1)"
    using r by (simp add: now NewValue_def Second_def ex_cfg_def)
  have stale: "proxy ex_ext ex_cfg [''upstream.4''] [] ?q ?s =
                 (Inr (setCachedAnswerTTL ex_ext (SetRcode ?m ?q (Rcode ?m)) (400 * Second)
                         (Add (400 * Second) staleTTL)),
                  Log LogServingStale ?s1)"
    using cached_answer_ttl[where failoverRcodes = "[]", OF c[of "400 * Second"] k t e u p,
            THEN conjunct2, rule_format, OF hs, unfolded Let_def now1, THEN conjunct1]
    by (simp add: NewValue_def)
  show ?thesis
    unfolding fresh stale fst_conv snd_conv map_sum.simps t1 t2
    by (simp add: Log_def)
qed

end
